theory Spec2Isabelle
  imports Complex_Main "HOL-Library.Multiset"
begin

unbundle bit_operations_syntax

section \<open>Data model (chess.cpp, lines 21-42)\<close>

text \<open>
  Squares and depths are C++ \<open>int\<close>s; every value the engine computes with them stays far
  from the 32-bit limits, so they are modelled as \<open>int\<close>. A board cell is a C++ \<open>char\<close>:
  the zero character is the empty square, an upper-case letter a white piece, a lower-case
  letter a black piece.
\<close>

datatype Side = WHITE | BLACK

record Move =
  m_from :: int
  m_to :: int
  captured :: char
  promo :: char

record Position =
  board :: "char list"
  side :: Side

text \<open>\<open>Side(side ^ 1)\<close>\<close>

fun flipSide :: "Side \<Rightarrow> Side" where
  "flipSide WHITE = BLACK"
| "flipSide BLACK = WHITE"

definition NUL :: char where
  "NUL = CHR 0x00"

text \<open>\<open>pos.board[sq]\<close>; the \<open>std::array\<close> has 64 cells, and every read of the source is
  either guarded by \<open>isOnBoard\<close> or made at a square of a generated move.\<close>

definition cell :: "Position \<Rightarrow> int \<Rightarrow> char" where
  "cell pos sq = board pos ! nat sq"

definition setCell :: "Position \<Rightarrow> int \<Rightarrow> char \<Rightarrow> Position" where
  "setCell pos sq c = pos\<lparr>board := (board pos)[nat sq := c]\<rparr>"

section \<open>Helper functions (lines 46-99)\<close>

definition fileOf :: "int \<Rightarrow> int" where
  "fileOf square = square AND 7"

definition rankOf :: "int \<Rightarrow> int" where
  "rankOf square = drop_bit 3 square"

definition isOnBoard :: "int \<Rightarrow> bool" where
  "isOnBoard square \<longleftrightarrow> square \<ge> 0 \<and> square < 64"

text \<open>The character classification of \<open>cctype\<close> in the C locale.\<close>

definition isupper :: "char \<Rightarrow> bool" where
  "isupper c \<longleftrightarrow> 65 \<le> (of_char c :: nat) \<and> (of_char c :: nat) \<le> 90"

definition islower :: "char \<Rightarrow> bool" where
  "islower c \<longleftrightarrow> 97 \<le> (of_char c :: nat) \<and> (of_char c :: nat) \<le> 122"

definition tolower :: "char \<Rightarrow> char" where
  "tolower c = (if isupper c then char_of ((of_char c :: nat) + 32) else c)"

definition toupper :: "char \<Rightarrow> char" where
  "toupper c = (if islower c then char_of ((of_char c :: nat) - 32) else c)"

definition pieceValue :: "char \<Rightarrow> int" where
  "pieceValue p =
     (let l = tolower p in
      if l = CHR ''p'' then 100
      else if l = CHR ''n'' then 320
      else if l = CHR ''b'' then 330
      else if l = CHR ''r'' then 500
      else if l = CHR ''q'' then 900
      else if l = CHR ''k'' then 20000
      else 0)"

definition isWhitePiece :: "char \<Rightarrow> bool" where
  "isWhitePiece p = isupper p"

definition isBlackPiece :: "char \<Rightarrow> bool" where
  "isBlackPiece p = islower p"

section \<open>Direction arrays and move construction (lines 103-118)\<close>

definition knightOffsets :: "int list" where
  "knightOffsets = [-17, -15, -10, -6, 6, 10, 15, 17]"

definition bishopOffsets :: "int list" where
  "bishopOffsets = [-9, -7, 7, 9]"

definition rookOffsets :: "int list" where
  "rookOffsets = [-8, -1, 1, 8]"

definition kingOffsets :: "int list" where
  "kingOffsets = [-9, -8, -7, -1, 1, 7, 8, 9]"

text \<open>\<open>addMove\<close>: the vector \<open>moves\<close> is passed in and returned; \<open>push_back\<close> appends.\<close>

definition addMove :: "Move list \<Rightarrow> Position \<Rightarrow> int \<Rightarrow> int \<Rightarrow> char \<Rightarrow> Move list" where
  "addMove moves pos from to pr =
     (let cap = cell pos to in
      if cap \<noteq> NUL \<and> tolower cap = CHR ''k'' then moves
      else moves @ [\<lparr>m_from = from, m_to = to, captured = cap, promo = pr\<rparr>])"

section \<open>Attack detection (lines 124-230)\<close>

text \<open>\<open>(bySide == WHITE) ? isWhitePiece(c) : isBlackPiece(c)\<close>\<close>

definition isSidePiece :: "Side \<Rightarrow> char \<Rightarrow> bool" where
  "isSidePiece bySide c = (if bySide = WHITE then isWhitePiece c else isBlackPiece c)"

text \<open>The diagonal ray of \<open>isAttacked\<close>, from \<open>sq\<close> on in direction \<open>d\<close>: an empty square
  continues the loop, the first occupied square decides.\<close>

function bishopRay :: "Position \<Rightarrow> Side \<Rightarrow> int \<Rightarrow> int \<Rightarrow> bool" where
  "bishopRay pos bySide d sq =
     (if isOnBoard sq \<and> \<bar>fileOf (sq - d) - fileOf sq\<bar> = 1 then
        (if cell pos sq = NUL then bishopRay pos bySide d (sq + d)
         else isSidePiece bySide (cell pos sq) \<and>
              (tolower (cell pos sq) = CHR ''b'' \<or> tolower (cell pos sq) = CHR ''q''))
      else False)"
  by pat_completeness auto
termination
  by (relation "measure (\<lambda>(pos, bySide, d, sq). if d > 0 then nat (64 - sq) else if d = 0 then 0 else nat (sq + 1))")
     (auto simp: isOnBoard_def)

declare bishopRay.simps [simp del]

text \<open>The orthogonal ray. The offsets come from \<open>rookOffsets\<close> and are never 0; with
  \<open>d = 0\<close> the source loop would not advance, so the model stops there.\<close>

function rookRay :: "Position \<Rightarrow> Side \<Rightarrow> int \<Rightarrow> int \<Rightarrow> bool" where
  "rookRay pos bySide d sq =
     (if d \<noteq> 0 \<and> isOnBoard sq \<and> \<not> ((d = -1 \<or> d = 1) \<and> rankOf (sq - d) \<noteq> rankOf sq) then
        (if cell pos sq = NUL then rookRay pos bySide d (sq + d)
         else isSidePiece bySide (cell pos sq) \<and>
              (tolower (cell pos sq) = CHR ''r'' \<or> tolower (cell pos sq) = CHR ''q''))
      else False)"
  by pat_completeness auto
termination
  by (relation "measure (\<lambda>(pos, bySide, d, sq). if d > 0 then nat (64 - sq) else nat (sq + 1))")
     (auto simp: isOnBoard_def)

declare rookRay.simps [simp del]

definition pawnAttack :: "Position \<Rightarrow> int \<Rightarrow> Side \<Rightarrow> bool" where
  "pawnAttack pos target bySide =
     (let dir = (if bySide = WHITE then 8 else -8) in
      list_ex (\<lambda>dx. let sq = target + dir + dx in
                 isOnBoard sq \<and> \<bar>fileOf sq - fileOf target\<bar> = 1 \<and> cell pos sq \<noteq> NUL \<and>
                 isSidePiece bySide (cell pos sq) \<and> tolower (cell pos sq) = CHR ''p'')
        [-1, 1])"

definition knightAttack :: "Position \<Rightarrow> int \<Rightarrow> Side \<Rightarrow> bool" where
  "knightAttack pos target bySide =
     list_ex (\<lambda>d. let sq = target + d in
                if \<not> isOnBoard sq then False
                else if \<bar>fileOf target - fileOf sq\<bar> > 2 then False
                else cell pos sq \<noteq> NUL \<and> isSidePiece bySide (cell pos sq) \<and>
                     tolower (cell pos sq) = CHR ''n'')
       knightOffsets"

definition kingAttack :: "Position \<Rightarrow> int \<Rightarrow> Side \<Rightarrow> bool" where
  "kingAttack pos target bySide =
     list_ex (\<lambda>d. let sq = target + d in
                isOnBoard sq \<and> \<bar>fileOf target - fileOf sq\<bar> \<le> 1 \<and> cell pos sq \<noteq> NUL \<and>
                isSidePiece bySide (cell pos sq) \<and> tolower (cell pos sq) = CHR ''k'')
       kingOffsets"

text \<open>\<open>isAttacked\<close>: the five blocks in the order of the source, each returning true at
  its first hit.\<close>

definition isAttacked :: "Position \<Rightarrow> int \<Rightarrow> Side \<Rightarrow> bool" where
  "isAttacked pos target bySide =
     (if pawnAttack pos target bySide then True
      else if knightAttack pos target bySide then True
      else if list_ex (\<lambda>d. bishopRay pos bySide d (target + d)) bishopOffsets then True
      else if list_ex (\<lambda>d. rookRay pos bySide d (target + d)) rookOffsets then True
      else if kingAttack pos target bySide then True
      else False)"

text \<open>\<open>kingSquare\<close>: the loop \<open>for (i = 0; i < 64; ++i)\<close>, started at \<open>i\<close>; -1 when no
  king is found.\<close>

function kingSquareFrom :: "Position \<Rightarrow> Side \<Rightarrow> int \<Rightarrow> int" where
  "kingSquareFrom pos sideToFind i =
     (if i < 64 then
        (if cell pos i \<noteq> NUL \<and>
            (if sideToFind = WHITE then cell pos i = CHR ''K'' else cell pos i = CHR ''k'')
         then i
         else kingSquareFrom pos sideToFind (i + 1))
      else -1)"
  by pat_completeness auto
termination
  by (relation "measure (\<lambda>(pos, sideToFind, i). nat (64 - i))") auto

declare kingSquareFrom.simps [simp del]

definition kingSquare :: "Position \<Rightarrow> Side \<Rightarrow> int" where
  "kingSquare pos sideToFind = kingSquareFrom pos sideToFind 0"

definition isInCheck :: "Position \<Rightarrow> Side \<Rightarrow> bool" where
  "isInCheck pos sideToMove =
     (let kSq = kingSquare pos sideToMove in isAttacked pos kSq (flipSide sideToMove))"

section \<open>Pseudo-legal move generator (lines 263-413)\<close>

definition pawnCapture :: "Position \<Rightarrow> int \<Rightarrow> char \<Rightarrow> int \<Rightarrow> Move list \<Rightarrow> int \<Rightarrow> Move list" where
  "pawnCapture pos s pc dir moves dx =
     (let cap = s + dir + dx in
      if isOnBoard cap \<and> \<bar>fileOf cap - fileOf s\<bar> = 1 \<and> cell pos cap \<noteq> NUL \<and>
         isWhitePiece pc \<noteq> isWhitePiece (cell pos cap)
      then (if rankOf cap = 0 \<or> rankOf cap = 7 then addMove moves pos s cap (CHR ''q'')
            else addMove moves pos s cap NUL)
      else moves)"

definition pawnMoves :: "Position \<Rightarrow> int \<Rightarrow> char \<Rightarrow> Move list \<Rightarrow> Move list" where
  "pawnMoves pos s pc moves =
     (let dir = (if isWhitePiece pc then -8 else 8);
          to = s + dir;
          moves1 =
            (if isOnBoard to \<and> cell pos to = NUL then
               (let single = (if rankOf to = 0 \<or> rankOf to = 7
                              then addMove moves pos s to (CHR ''q'')
                              else addMove moves pos s to NUL);
                    dbl = s + 2 * dir
                in if ((rankOf s = 6 \<and> isWhitePiece pc) \<or> (rankOf s = 1 \<and> isBlackPiece pc)) \<and>
                      isOnBoard dbl \<and> cell pos dbl = NUL
                   then addMove single pos s dbl NUL
                   else single)
             else moves)
      in foldl (pawnCapture pos s pc dir) moves1 [-1, 1])"

definition knightMoves :: "Position \<Rightarrow> int \<Rightarrow> char \<Rightarrow> Move list \<Rightarrow> Move list" where
  "knightMoves pos s pc moves =
     foldl (\<lambda>ms d. let t = s + d in
              if \<not> isOnBoard t \<or> \<bar>fileOf s - fileOf t\<bar> > 2 then ms
              else if cell pos t = NUL \<or> isWhitePiece pc \<noteq> isWhitePiece (cell pos t)
                   then addMove ms pos s t NUL
                   else ms)
       moves knightOffsets"

text \<open>The \<open>while (true)\<close> walk of a bishop or queen along \<open>d\<close>, entered with the current
  square \<open>t\<close>.\<close>

function bishopSlide :: "Position \<Rightarrow> int \<Rightarrow> char \<Rightarrow> int \<Rightarrow> int \<Rightarrow> Move list \<Rightarrow> Move list" where
  "bishopSlide pos s pc d t moves =
     (let prev = t; t' = t + d in
      if \<not> isOnBoard t' \<or> \<bar>fileOf prev - fileOf t'\<bar> \<noteq> 1 then moves
      else if cell pos t' = NUL then bishopSlide pos s pc d t' (addMove moves pos s t' NUL)
      else if isWhitePiece pc \<noteq> isWhitePiece (cell pos t') then addMove moves pos s t' NUL
      else moves)"
  by pat_completeness auto
termination
  by (relation "measure (\<lambda>(pos, s, pc, d, t, moves). if d > 0 then nat (64 - t) else if d = 0 then 0 else nat (t + 1))")
     (auto simp: isOnBoard_def)

declare bishopSlide.simps [simp del]

text \<open>The walk of a rook or queen; as for \<open>rookRay\<close>, \<open>d\<close> is never 0.\<close>

function rookSlide :: "Position \<Rightarrow> int \<Rightarrow> char \<Rightarrow> int \<Rightarrow> int \<Rightarrow> Move list \<Rightarrow> Move list" where
  "rookSlide pos s pc d t moves =
     (let prev = t; t' = t + d in
      if d = 0 \<or> \<not> isOnBoard t' \<or> ((d = -1 \<or> d = 1) \<and> rankOf prev \<noteq> rankOf t') then moves
      else if cell pos t' = NUL then rookSlide pos s pc d t' (addMove moves pos s t' NUL)
      else if isWhitePiece pc \<noteq> isWhitePiece (cell pos t') then addMove moves pos s t' NUL
      else moves)"
  by pat_completeness auto
termination
  by (relation "measure (\<lambda>(pos, s, pc, d, t, moves). if d > 0 then nat (64 - t) else nat (t + 1))")
     (auto simp: isOnBoard_def)

declare rookSlide.simps [simp del]

definition kingMoves :: "Position \<Rightarrow> int \<Rightarrow> char \<Rightarrow> Move list \<Rightarrow> Move list" where
  "kingMoves pos s pc moves =
     foldl (\<lambda>ms d. let t = s + d in
              if \<not> isOnBoard t \<or> \<bar>fileOf s - fileOf t\<bar> > 1 then ms
              else if cell pos t = NUL \<or> isWhitePiece pc \<noteq> isWhitePiece (cell pos t)
                   then addMove ms pos s t NUL
                   else ms)
       moves kingOffsets"

text \<open>One iteration of the square scan of \<open>generateMoves\<close>: pawns and knights end the
  iteration with \<open>continue\<close>; the bishop, rook and king blocks follow one another.\<close>

definition pieceMoves :: "Position \<Rightarrow> Move list \<Rightarrow> int \<Rightarrow> Move list" where
  "pieceMoves pos moves s =
     (let us = side pos; pc = cell pos s in
      if pc = NUL then moves
      else if (us = WHITE \<and> \<not> isWhitePiece pc) \<or> (us = BLACK \<and> \<not> isBlackPiece pc) then moves
      else
        (let lower = tolower pc in
         if lower = CHR ''p'' then pawnMoves pos s pc moves
         else if lower = CHR ''n'' then knightMoves pos s pc moves
         else
           (let m1 = (if lower = CHR ''b'' \<or> lower = CHR ''q''
                      then foldl (\<lambda>ms d. bishopSlide pos s pc d s ms) moves bishopOffsets
                      else moves);
                m2 = (if lower = CHR ''r'' \<or> lower = CHR ''q''
                      then foldl (\<lambda>ms d. rookSlide pos s pc d s ms) m1 rookOffsets
                      else m1)
            in if lower = CHR ''k'' then kingMoves pos s pc m2 else m2)))"

text \<open>\<open>generateMoves\<close> clears the vector it is given and scans the squares 0..63.\<close>

definition generateMoves :: "Position \<Rightarrow> Move list" where
  "generateMoves pos = foldl (pieceMoves pos) [] [0..63]"

section \<open>Legal-move filter (lines 234-257)\<close>

text \<open>One iteration of the loop over the raw moves: the move is applied in place (without
  promotion), the side flipped, the check test made, and both are put back. The position and
  the vector \<open>legal\<close>, which the caller passes in, are threaded through.\<close>

definition legalStep :: "Position \<times> Move list \<Rightarrow> Move \<Rightarrow> Position \<times> Move list" where
  "legalStep st mv =
     (let (pos, legal) = st;
          pos1 = setCell pos (m_to mv) (cell pos (m_from mv));
          pos2 = setCell pos1 (m_from mv) NUL;
          pos3 = pos2\<lparr>side := flipSide (side pos2)\<rparr>;
          legal' = (if \<not> isInCheck pos3 (flipSide (side pos3)) then legal @ [mv] else legal);
          pos4 = pos3\<lparr>side := flipSide (side pos3)\<rparr>;
          pos5 = setCell pos4 (m_from mv) (cell pos4 (m_to mv));
          pos6 = setCell pos5 (m_to mv) (captured mv)
      in (pos6, legal'))"

definition generateLegalMoves :: "Position \<Rightarrow> Move list \<Rightarrow> Position \<times> Move list" where
  "generateLegalMoves pos legal = foldl legalStep (pos, legal) (generateMoves pos)"

section \<open>Make and undo (lines 417-432)\<close>

text \<open>\<open>makeMove\<close> fills the undo record with the move and returns the new position.\<close>

definition makeMove :: "Position \<Rightarrow> Move \<Rightarrow> Position \<times> Move" where
  "makeMove pos m =
     (let u = m;
          pc = cell pos (m_from m);
          pos1 = setCell pos (m_to m)
                   (if promo m \<noteq> NUL
                    then (if isWhitePiece pc then toupper (promo m) else tolower (promo m))
                    else pc);
          pos2 = setCell pos1 (m_from m) NUL
      in (pos2\<lparr>side := flipSide (side pos2)\<rparr>, u))"

definition undoMove :: "Position \<Rightarrow> Move \<Rightarrow> Position" where
  "undoMove pos u =
     (let m = u;
          pos1 = pos\<lparr>side := flipSide (side pos)\<rparr>;
          pos2 = setCell pos1 (m_from m)
                   (if promo m \<noteq> NUL
                    then (if isWhitePiece (cell pos1 (m_to m)) then CHR ''P'' else CHR ''p'')
                    else cell pos1 (m_to m))
      in setCell pos2 (m_to m) (captured m))"

section \<open>Evaluation (lines 434-445)\<close>

definition evaluate :: "Position \<Rightarrow> int" where
  "evaluate pos =
     (let sum = foldl (\<lambda>sum pc. if pc \<noteq> NUL
                                 then sum + (if isWhitePiece pc then pieceValue pc else - pieceValue pc)
                                 else sum)
                  0 (board pos)
      in if side pos = WHITE then sum else - sum)"

section \<open>Transposition table (lines 451-456)\<close>

text \<open>The fields \<open>depth\<close> and \<open>score\<close> of \<open>TTEntry\<close> carry a prefix here, since the search
  uses both words as variables. The table is the static \<open>std::unordered_map\<close>, passed to and
  returned by every function that touches it.\<close>

record TTEntry =
  tt_depth :: int
  tt_score :: int

type_synonym TT = "string \<rightharpoonup> TTEntry"

text \<open>The table without entries, as \<open>clear()\<close> leaves it.\<close>

definition emptyTT :: TT where
  "emptyTT = Map.empty"

text \<open>\<open>std::to_string\<close> on an \<open>int\<close>: decimal digits, with a leading minus sign.\<close>

function digitsOf :: "nat \<Rightarrow> string" where
  "digitsOf n = (if n < 10 then [char_of (48 + n)]
                 else digitsOf (n div 10) @ [char_of (48 + n mod 10)])"
  by pat_completeness auto
termination
  by (relation "measure id") auto

declare digitsOf.simps [simp del]

definition to_string :: "int \<Rightarrow> string" where
  "to_string i = (if i < 0 then CHR ''-'' # digitsOf (nat (- i)) else digitsOf (nat i))"

text \<open>\<open>boardKey + static_cast<char>('0' + pos.side) + std::to_string(depth)\<close>\<close>

definition ttKeyOf :: "Position \<Rightarrow> int \<Rightarrow> string" where
  "ttKeyOf pos depth =
     board pos @ [char_of (48 + (case side pos of WHITE \<Rightarrow> 0 | BLACK \<Rightarrow> (1::nat)))] @ to_string depth"

text \<open>\<open>find\<close> and the test \<open>it->second.depth >= depth\<close>: the stored score when the entry
  is reusable.\<close>

definition ttProbe :: "TT \<Rightarrow> string \<Rightarrow> int \<Rightarrow> int option" where
  "ttProbe tt ttKey depth =
     (case tt ttKey of
        None \<Rightarrow> None
      | Some e \<Rightarrow> if tt_depth e \<ge> depth then Some (tt_score e) else None)"

section \<open>Alpha-beta search (lines 460-543)\<close>

text \<open>The MVV-LVA value \<open>h\<close> that the comparator of both calls of \<open>std::sort\<close> computes
  for a move, and the comparator itself: \<open>m1\<close> goes before \<open>m2\<close> when \<open>h1 > h2\<close>.\<close>

definition mvvLva :: "Position \<Rightarrow> Move \<Rightarrow> int" where
  "mvvLva pos m =
     (if captured m \<noteq> NUL
      then (let victim = captured m; attacker = cell pos (m_from m)
            in pieceValue victim - pieceValue attacker)
      else 0)"

definition mvvLvaBefore :: "Position \<Rightarrow> Move \<Rightarrow> Move \<Rightarrow> bool" where
  "mvvLvaBefore pos m1 m2 = (let h1 = mvvLva pos m1; h2 = mvvLva pos m2 in h1 > h2)"

text \<open>
  \<open>std::sort\<close> belongs to the C++ library, not to the repository, and it is not stable: the
  order in which it leaves moves of equal value depends on the library. It is therefore a
  parameter \<open>srt\<close> of the search, taking the comparator and the vector. \<open>sortContract\<close> is
  what \<open>std::sort\<close> promises for a comparator that compares a value of the elements: the
  result is a permutation of the input, and no element has a larger value than an element in
  front of it.
\<close>

type_synonym moveSort = "(Move \<Rightarrow> Move \<Rightarrow> bool) \<Rightarrow> Move list \<Rightarrow> Move list"

definition sortContract :: "moveSort \<Rightarrow> bool" where
  "sortContract srt \<longleftrightarrow>
     (\<forall>(h :: Move \<Rightarrow> int) xs.
        mset (srt (\<lambda>m1 m2. h m1 > h m2) xs) = mset xs \<and>
        sorted_wrt (\<lambda>m1 m2. h m1 \<ge> h m2) (srt (\<lambda>m1 m2. h m1 > h m2) xs))"

definition sortMoves :: "moveSort \<Rightarrow> Position \<Rightarrow> Move list \<Rightarrow> Move list" where
  "sortMoves srt pos moves = srt (mvvLvaBefore pos) moves"

text \<open>One sort that meets the contract, used to run the search on examples: an insertion
  sort that keeps moves of equal value in the order in which they were generated.\<close>

fun insertBy :: "(Move \<Rightarrow> Move \<Rightarrow> bool) \<Rightarrow> Move \<Rightarrow> Move list \<Rightarrow> Move list" where
  "insertBy before m [] = [m]"
| "insertBy before m (x # xs) = (if before x m then x # insertBy before m xs else m # x # xs)"

definition insertionSort :: moveSort where
  "insertionSort before xs = foldr (insertBy before) xs []"

text \<open>
  \<open>alphaBetaSearch\<close> recurses on \<open>depth - 1\<close> and stops at \<open>depth == 0\<close>, a cache hit or a
  position without legal moves; called with a negative depth it need not return. The model
  therefore carries a recursion budget: \<open>None\<close> means that the budget was used up. The
  position is changed in place by \<open>makeMove\<close> and \<open>undoMove\<close>, so it is returned together
  with the table and the score. \<open>searchMoves\<close> is the loop over the sorted moves, with the
  loop variables \<open>alpha\<close> and \<open>bestScore\<close>.
\<close>

fun alphaBetaSearch :: "moveSort \<Rightarrow> nat \<Rightarrow> TT \<Rightarrow> Position \<Rightarrow> int \<Rightarrow> int \<Rightarrow> int \<Rightarrow> (Position \<times> TT \<times> int) option"
  and searchMoves :: "moveSort \<Rightarrow> nat \<Rightarrow> TT \<Rightarrow> Position \<Rightarrow> string \<Rightarrow> int \<Rightarrow> int \<Rightarrow> int \<Rightarrow> int \<Rightarrow> Move list
                        \<Rightarrow> (Position \<times> TT \<times> int) option"
where
  "alphaBetaSearch srt 0 tt pos depth alpha beta = None"
| "alphaBetaSearch srt (Suc fuel) tt pos depth alpha beta =
     (let ttKey = ttKeyOf pos depth in
      case ttProbe tt ttKey depth of
        Some cached \<Rightarrow> Some (pos, tt, cached)
      | None \<Rightarrow>
          if depth = 0 then Some (pos, tt, evaluate pos)
          else
            (let (pos1, moves) = generateLegalMoves pos [] in
             if moves = [] then
               (let val = (if isInCheck pos1 (side pos1) then -100000 + depth else 0)
                in Some (pos1, tt(ttKey \<mapsto> \<lparr>tt_depth = depth, tt_score = val\<rparr>), val))
             else searchMoves srt fuel tt pos1 ttKey depth alpha beta (-1000000000)
                    (sortMoves srt pos1 moves)))"
| "searchMoves srt fuel tt pos ttKey depth alpha beta bestScore [] =
     Some (pos, tt(ttKey \<mapsto> \<lparr>tt_depth = depth, tt_score = bestScore\<rparr>), bestScore)"
| "searchMoves srt fuel tt pos ttKey depth alpha beta bestScore (m # ms) =
     (let (pos1, u) = makeMove pos m in
      case alphaBetaSearch srt fuel tt pos1 (depth - 1) (- beta) (- alpha) of
        None \<Rightarrow> None
      | Some (pos2, tt2, s) \<Rightarrow>
          (let score = - s; pos3 = undoMove pos2 u in
           if score \<ge> beta
           then Some (pos3, tt2(ttKey \<mapsto> \<lparr>tt_depth = depth, tt_score = beta\<rparr>), beta)
           else searchMoves srt fuel tt2 pos3 ttKey depth
                  (if score > alpha then score else alpha) beta
                  (if score > bestScore then score else bestScore) ms))"

declare alphaBetaSearch.simps [simp del] searchMoves.simps [simp del]

text \<open>The score and the table of a search result.\<close>

definition scoreOf :: "(Position \<times> TT \<times> int) option \<Rightarrow> int option" where
  "scoreOf r = map_option (\<lambda>(pos, tt, s). s) r"

definition tableOf :: "(Position \<times> TT \<times> int) option \<Rightarrow> TT" where
  "tableOf r = (case r of None \<Rightarrow> Map.empty | Some (pos, tt, s) \<Rightarrow> tt)"

section \<open>Root move selection (lines 547-599)\<close>

text \<open>Reading \<open>moves[0]\<close> of an empty vector is outside its bounds.\<close>

datatype error = OutOfBounds

text \<open>The loop over the sorted root moves. \<open>draws\<close> is the sequence of values that
  \<open>uni(rng)\<close> returns and \<open>k\<close> the number of draws made so far; a draw is made only when
  \<open>randProb > 0\<close>. The \<open>double\<close> \<open>randProb\<close> is only compared, and is modelled as a real.\<close>

fun rootMoves :: "moveSort \<Rightarrow> nat \<Rightarrow> TT \<Rightarrow> Position \<Rightarrow> int \<Rightarrow> real \<Rightarrow> (nat \<Rightarrow> real) \<Rightarrow> nat \<Rightarrow> Move \<Rightarrow> int
                    \<Rightarrow> Move list \<Rightarrow> (Position \<times> TT \<times> Move) option" where
  "rootMoves srt fuel tt pos depth randProb draws k best bestScore [] = Some (pos, tt, best)"
| "rootMoves srt fuel tt pos depth randProb draws k best bestScore (m # ms) =
     (if randProb > 0 \<and> draws k < randProb then Some (pos, tt, m)
      else
        (let (pos1, u) = makeMove pos m in
         case alphaBetaSearch srt fuel tt pos1 (depth - 1) (-1000000000) 1000000000 of
           None \<Rightarrow> None
         | Some (pos2, tt2, s) \<Rightarrow>
             (let score = - s; pos3 = undoMove pos2 u;
                  k' = (if randProb > 0 then k + 1 else k)
              in if score > bestScore
                 then rootMoves srt fuel tt2 pos3 depth randProb draws k' m score ms
                 else rootMoves srt fuel tt2 pos3 depth randProb draws k' best bestScore ms)))"

declare rootMoves.simps [simp del]

definition searchBestMove :: "moveSort \<Rightarrow> nat \<Rightarrow> TT \<Rightarrow> Position \<Rightarrow> int \<Rightarrow> real \<Rightarrow> (nat \<Rightarrow> real)
                                \<Rightarrow> (error + Position \<times> TT \<times> Move) option" where
  "searchBestMove srt fuel tt pos depth randProb draws =
     (let (pos1, moves) = generateLegalMoves pos [] in
      case moves of
        [] \<Rightarrow> Some (Inl OutOfBounds)
      | m0 # rest \<Rightarrow>
          (let best = m0; bestScore = -1000000000; sorted = sortMoves srt pos1 moves
           in map_option Inr (rootMoves srt fuel tt pos1 depth randProb draws 0 best bestScore sorted)))"

text \<open>The move of a result of \<open>searchBestMove\<close>.\<close>

definition moveOf :: "(error + Position \<times> TT \<times> Move) option \<Rightarrow> Move option" where
  "moveOf r = (case r of Some (Inr (pos, tt, m)) \<Rightarrow> Some m | _ \<Rightarrow> None)"

section \<open>Square names and the Game wrapper (lines 603-739)\<close>

text \<open>A \<open>char\<close> read as an \<open>int\<close>; plain \<open>char\<close> is taken as signed.\<close>

definition charToInt :: "char \<Rightarrow> int" where
  "charToInt c = (let n = of_char c in if n \<ge> 128 then n - 256 else n)"

text \<open>\<open>algebraicToSquare\<close> is only called on the two-character pieces of a string of
  length 4.\<close>

definition algebraicToSquare :: "string \<Rightarrow> int" where
  "algebraicToSquare s = ((charToInt (CHR ''8'') - charToInt (s ! 1)) * 8) +
                         (charToInt (s ! 0) - charToInt (CHR ''a''))"

text \<open>\<open>s.substr(pos, n)\<close>\<close>

definition substr :: "string \<Rightarrow> nat \<Rightarrow> nat \<Rightarrow> string" where
  "substr s i n = take n (drop i s)"

text \<open>The member \<open>pos\<close> of \<open>Game\<close> is called \<open>g_pos\<close>.\<close>

record Game =
  g_pos :: Position
  whiteCaps :: "char list"
  blackCaps :: "char list"
  levelDepth :: int
  randomProbability :: real
  lastMove :: string

text \<open>\<open>setLevel\<close> also clears the static transposition table.\<close>

definition setLevel :: "Game \<Rightarrow> int \<Rightarrow> TT \<Rightarrow> Game \<times> TT" where
  "setLevel g lvl tt =
     (let g' = (if lvl = 1 then g\<lparr>levelDepth := 2, randomProbability := 0.35\<rparr>
                else if lvl = 2 then g\<lparr>levelDepth := 4, randomProbability := 0.0\<rparr>
                else g\<lparr>levelDepth := 6, randomProbability := 0.0\<rparr>)
      in (g', emptyTT))"

definition initialBoard :: "char list" where
  "initialBoard =
     ''rnbqkbnr'' @ ''pppppppp'' @ replicate 32 NUL @ ''PPPPPPPP'' @ ''RNBQKBNR''"

text \<open>The constructor. Its members \<open>levelDepth\<close> and \<open>randomProbability\<close> hold no value
  until \<open>setLevel\<close> assigns both; the 0 written here is never read.\<close>

definition newGame :: "int \<Rightarrow> TT \<Rightarrow> Game \<times> TT" where
  "newGame level tt =
     setLevel \<lparr>g_pos = \<lparr>board = initialBoard, side = WHITE\<rparr>, whiteCaps = [], blackCaps = [],
               levelDepth = 0, randomProbability = 0, lastMove = []\<rparr> level tt"

text \<open>The default argument \<open>level = 2\<close>.\<close>

definition newGameDefault :: "TT \<Rightarrow> Game \<times> TT" where
  "newGameDefault tt = newGame 2 tt"

text \<open>The loop of \<open>playerMove\<close> over the legal moves.\<close>

fun playerLoop :: "Game \<Rightarrow> string \<Rightarrow> int \<Rightarrow> int \<Rightarrow> Move list \<Rightarrow> bool \<times> Game" where
  "playerLoop g s f t [] = (False, g)"
| "playerLoop g s f t (m # ms) =
     (if m_from m = f \<and> m_to m = t then
        (let (pos', u) = makeMove (g_pos g) m;
             g1 = g\<lparr>g_pos := pos'\<rparr>;
             g2 = (if captured m \<noteq> NUL then g1\<lparr>whiteCaps := whiteCaps g1 @ [captured m]\<rparr> else g1)
         in (True, g2\<lparr>lastMove := ''You: '' @ substr s 0 2 @ ''-'' @ substr s 2 2\<rparr>))
      else playerLoop g s f t ms)"

definition playerMove :: "Game \<Rightarrow> string \<Rightarrow> bool \<times> Game" where
  "playerMove g s =
     (if length s \<noteq> 4 then (False, g)
      else
        (let f = algebraicToSquare (substr s 0 2);
             t = algebraicToSquare (substr s 2 2);
             (pos1, mv) = generateLegalMoves (g_pos g) []
         in playerLoop (g\<lparr>g_pos := pos1\<rparr>) s f t mv))"

section \<open>Example positions\<close>

text \<open>White: king e1, pawn b7; Black: king h8, rook a8; White to move. The pawn can promote
  on b8 or by capturing on a8.\<close>

definition promoPos :: Position where
  "promoPos = \<lparr>board = ''r'' @ replicate 6 NUL @ ''k'' @ [NUL] @ ''P'' @ replicate 50 NUL @ ''K'' @ replicate 3 NUL,
               side = WHITE\<rparr>"

text \<open>White: rook h1; Black: king h8; White to move. The rook's file ends on the king.\<close>

definition rookPos :: Position where
  "rookPos = \<lparr>board = replicate 7 NUL @ ''k'' @ replicate 55 NUL @ ''R'', side = WHITE\<rparr>"

text \<open>White: king a1; Black: king h8, pawn b2; White to move. Three legal moves: Ka2, Kb1 and
  Kxb2.\<close>

definition cornerPos :: Position where
  "cornerPos = \<lparr>board = replicate 7 NUL @ ''k'' @ replicate 41 NUL @ ''p'' @ replicate 6 NUL @ ''K'' @ replicate 7 NUL,
                side = WHITE\<rparr>"

text \<open>The table left by a search of \<open>cornerPos\<close> at depth 1 with the window (-1000, -100),
  started on the empty table.\<close>

definition cornerTT :: TT where
  "cornerTT = tableOf (alphaBetaSearch insertionSort 2 emptyTT cornerPos 1 (-1000) (-100))"

text \<open>White: queen g7, king f6; Black: king h8; Black to move and checkmated.\<close>

definition matePos :: Position where
  "matePos = \<lparr>board = replicate 7 NUL @ ''k'' @ replicate 6 NUL @ ''Q'' @ replicate 6 NUL @ ''K'' @ replicate 42 NUL,
              side = BLACK\<rparr>"

text \<open>White: king a6, pawns a7, b6, h3; Black: king a8, pawn h6; White to move. The push
  b6-b7 is checkmate at once; after h3-h4 Black has only h6-h5, and b6-b7 is checkmate a move
  later.\<close>

definition tempoPos :: Position where
  "tempoPos = \<lparr>board = ''k'' @ replicate 7 NUL @ ''P'' @ replicate 7 NUL @ ''KP'' @ replicate 5 NUL @ ''p''
                       @ replicate 23 NUL @ ''P'' @ replicate 16 NUL,
               side = WHITE\<rparr>"

text \<open>White: king h1, bishop f1, pawns e2, g2, e6, g6; Black: king h8, bishop f8, pawns e7, g7,
  e3, g3; White to move. Every pawn is blocked and has nothing to capture, the bishops are
  shut in by their own pawns, and each king has one legal move: between h1 and g1, and between
  h8 and g8. \<open>pingPos1\<close>, \<open>pingPos2\<close> and \<open>pingPos3\<close> are the positions after one, two and three
  of these moves; the fourth move leads back to \<open>pingPos\<close>.\<close>

definition pingPos :: Position where
  "pingPos = \<lparr>board = replicate 5 NUL @ ''b'' @ [NUL] @ ''k''
                       @ replicate 4 NUL @ ''p'' @ [NUL] @ ''p'' @ [NUL]
                       @ replicate 4 NUL @ ''P'' @ [NUL] @ ''P'' @ [NUL]
                       @ replicate 16 NUL
                       @ replicate 4 NUL @ ''p'' @ [NUL] @ ''p'' @ [NUL]
                       @ replicate 4 NUL @ ''P'' @ [NUL] @ ''P'' @ [NUL]
                       @ replicate 5 NUL @ ''B'' @ [NUL] @ ''K'',
              side = WHITE\<rparr>"

definition pingPos1 :: Position where
  "pingPos1 = fst (makeMove pingPos \<lparr>m_from = 63, m_to = 62, captured = NUL, promo = NUL\<rparr>)"

definition pingPos2 :: Position where
  "pingPos2 = fst (makeMove pingPos1 \<lparr>m_from = 7, m_to = 6, captured = NUL, promo = NUL\<rparr>)"

definition pingPos3 :: Position where
  "pingPos3 = fst (makeMove pingPos2 \<lparr>m_from = 62, m_to = 63, captured = NUL, promo = NUL\<rparr>)"

text \<open>A new game with the default level.\<close>

definition startGame :: Game where
  "startGame = fst (newGameDefault emptyTT)"

text \<open>Three sequences of draws from [0,1).\<close>

definition noDraws :: "nat \<Rightarrow> real" where
  "noDraws k = 0"

definition halfDraws :: "nat \<Rightarrow> real" where
  "halfDraws k = 1 / 2"

definition fifthDraws :: "nat \<Rightarrow> real" where
  "fifthDraws k = 1 / 5"

section \<open>Predicates used in the proofs\<close>

text \<open>What every generated move satisfies, relative to the position it was generated for.\<close>

definition genOk :: "Position \<Rightarrow> Move \<Rightarrow> bool" where
  "genOk pos m \<longleftrightarrow>
     isOnBoard (m_from m) \<and> isOnBoard (m_to m) \<and> m_from m \<noteq> m_to m \<and>
     captured m = cell pos (m_to m) \<and> tolower (captured m) \<noteq> CHR ''k'' \<and>
     cell pos (m_from m) \<noteq> NUL \<and>
     (if side pos = WHITE then isWhitePiece (cell pos (m_from m))
      else isBlackPiece (cell pos (m_from m))) \<and>
     (if promo m = NUL then True
      else promo m = CHR ''q'' \<and> tolower (cell pos (m_from m)) = CHR ''p'')"

text \<open>The square scanned holds a piece of the side to move.\<close>

definition srcOk :: "Position \<Rightarrow> int \<Rightarrow> bool" where
  "srcOk pos s \<longleftrightarrow> isOnBoard s \<and> cell pos s \<noteq> NUL \<and>
     (if side pos = WHITE then isWhitePiece (cell pos s) else isBlackPiece (cell pos s))"

text \<open>The position on which the legal-move filter runs its check test: the piece is moved
  without promotion and the side flipped.\<close>

definition simMove :: "Position \<Rightarrow> Move \<Rightarrow> Position" where
  "simMove pos mv =
     (setCell (setCell pos (m_to mv) (cell pos (m_from mv))) (m_from mv) NUL)
       \<lparr>side := flipSide (side pos)\<rparr>"

text \<open>Two positions that \<open>isAttacked\<close> cannot tell apart for the attacker \<open>bySide\<close>: the
  same squares are empty, and the pieces of \<open>bySide\<close> are the same.\<close>

definition sameFor :: "Side \<Rightarrow> Position \<Rightarrow> Position \<Rightarrow> bool" where
  "sameFor bySide p1 p2 \<longleftrightarrow>
     (\<forall>sq. isOnBoard sq \<longrightarrow>
        (cell p1 sq = NUL \<longleftrightarrow> cell p2 sq = NUL) \<and>
        (isSidePiece bySide (cell p1 sq) \<or> isSidePiece bySide (cell p2 sq)
           \<longrightarrow> cell p1 sq = cell p2 sq))"

text \<open>The signed material value of one cell, as \<open>evaluate\<close> adds it up.\<close>

definition cellValue :: "char \<Rightarrow> int" where
  "cellValue pc = (if pc \<noteq> NUL then (if isWhitePiece pc then pieceValue pc else - pieceValue pc) else 0)"

section \<open>Properties of the move generator\<close>

lemma tolower_NUL: "tolower NUL \<noteq> CHR ''k''"
  by (simp add: tolower_def isupper_def NUL_def)

lemma q_not_NUL: "CHR ''q'' \<noteq> NUL"
  by (simp add: NUL_def)

lemma addMove_set:
  "set (addMove moves pos s t pr) \<subseteq>
     set moves \<union> {\<lparr>m_from = s, m_to = t, captured = cell pos t, promo = pr\<rparr>}"
  by (auto simp: addMove_def Let_def)

lemma addMove_new:
  "m \<in> set (addMove moves pos s t pr) \<Longrightarrow> m \<notin> set moves \<Longrightarrow>
   m = \<lparr>m_from = s, m_to = t, captured = cell pos t, promo = pr\<rparr> \<and>
   \<not> (cell pos t \<noteq> NUL \<and> tolower (cell pos t) = CHR ''k'')"
  by (auto simp: addMove_def Let_def split: if_splits)

lemma addMove_ok:
  assumes old: "\<forall>m\<in>set moves. genOk pos m" and src: "srcOk pos s" and t: "isOnBoard t"
    and ne: "s \<noteq> t"
    and pr: "pr = NUL \<or> (pr = CHR ''q'' \<and> tolower (cell pos s) = CHR ''p'')"
  shows "\<forall>m\<in>set (addMove moves pos s t pr). genOk pos m"
proof
  fix m assume m: "m \<in> set (addMove moves pos s t pr)"
  show "genOk pos m"
  proof (cases "m \<in> set moves")
    case True
    then show ?thesis using old by blast
  next
    case False
    from addMove_new[OF m False]
    have eq: "m = \<lparr>m_from = s, m_to = t, captured = cell pos t, promo = pr\<rparr>"
      and nk: "\<not> (cell pos t \<noteq> NUL \<and> tolower (cell pos t) = CHR ''k'')" by blast+
    from nk have k: "tolower (cell pos t) \<noteq> CHR ''k''"
      using tolower_NUL by (cases "cell pos t = NUL") auto
    show ?thesis
      using src t ne pr k q_not_NUL unfolding eq genOk_def srcOk_def by auto
  qed
qed

lemma foldl_inv:
  "P a \<Longrightarrow> (\<And>a x. x \<in> set xs \<Longrightarrow> P a \<Longrightarrow> P (f a x)) \<Longrightarrow> P (foldl f a xs)"
  by (induction xs arbitrary: a) simp_all

lemma bishopSlide_ok:
  "\<forall>m\<in>set moves. genOk pos m \<Longrightarrow> srcOk pos s \<Longrightarrow>
   (0 \<le> d \<and> s \<le> t) \<or> (d \<le> 0 \<and> t \<le> s) \<Longrightarrow>
   \<forall>m\<in>set (bishopSlide pos s pc d t moves). genOk pos m"
proof (induction pos s pc d t moves rule: bishopSlide.induct)
  case (1 pos s pc d t moves)
  show ?case
  proof (cases "\<not> isOnBoard (t + d) \<or> \<bar>fileOf t - fileOf (t + d)\<bar> \<noteq> 1")
    case True
    then show ?thesis using "1.prems"(1) by (subst bishopSlide.simps) (simp add: Let_def)
  next
    case False
    then have on: "isOnBoard (t + d)" by blast
    have d0: "d \<noteq> 0"
    proof
      assume "d = 0"
      with False show False by simp
    qed
    with "1.prems"(3) have ne: "s \<noteq> t + d" by linarith
    have add: "\<forall>m\<in>set (addMove moves pos s (t + d) NUL). genOk pos m"
      by (rule addMove_ok[OF "1.prems"(1,2) on ne]) simp
    show ?thesis
    proof (cases "cell pos (t + d) = NUL")
      case True
      have dir: "(0 \<le> d \<and> s \<le> t + d) \<or> (d \<le> 0 \<and> t + d \<le> s)"
        using "1.prems"(3) by linarith
      have "\<forall>m\<in>set (bishopSlide pos s pc d (t + d) (addMove moves pos s (t + d) NUL)). genOk pos m"
        by (rule "1.IH"[OF refl refl False True add "1.prems"(2) dir])
      then show ?thesis using False True by (subst bishopSlide.simps) (simp add: Let_def)
    next
      case nonempty: False
      then show ?thesis using False add "1.prems"(1)
        by (subst bishopSlide.simps) (simp add: Let_def)
    qed
  qed
qed

lemma rookSlide_ok:
  "\<forall>m\<in>set moves. genOk pos m \<Longrightarrow> srcOk pos s \<Longrightarrow>
   (0 \<le> d \<and> s \<le> t) \<or> (d \<le> 0 \<and> t \<le> s) \<Longrightarrow>
   \<forall>m\<in>set (rookSlide pos s pc d t moves). genOk pos m"
proof (induction pos s pc d t moves rule: rookSlide.induct)
  case (1 pos s pc d t moves)
  show ?case
  proof (cases "d = 0 \<or> \<not> isOnBoard (t + d) \<or> ((d = -1 \<or> d = 1) \<and> rankOf t \<noteq> rankOf (t + d))")
    case True
    then show ?thesis using "1.prems"(1) by (subst rookSlide.simps) (simp add: Let_def)
  next
    case False
    then have on: "isOnBoard (t + d)" and d0: "d \<noteq> 0" by blast+
    with "1.prems"(3) have ne: "s \<noteq> t + d" by linarith
    have add: "\<forall>m\<in>set (addMove moves pos s (t + d) NUL). genOk pos m"
      by (rule addMove_ok[OF "1.prems"(1,2) on ne]) simp
    show ?thesis
    proof (cases "cell pos (t + d) = NUL")
      case True
      have dir: "(0 \<le> d \<and> s \<le> t + d) \<or> (d \<le> 0 \<and> t + d \<le> s)"
        using "1.prems"(3) by linarith
      have "\<forall>m\<in>set (rookSlide pos s pc d (t + d) (addMove moves pos s (t + d) NUL)). genOk pos m"
        by (rule "1.IH"[OF refl refl False True add "1.prems"(2) dir])
      then show ?thesis using False True by (subst rookSlide.simps) (auto simp: Let_def)
    next
      case nonempty: False
      then show ?thesis using False add "1.prems"(1)
        by (subst rookSlide.simps) (simp add: Let_def)
    qed
  qed
qed

lemma pawnCapture_ok:
  assumes "\<forall>m\<in>set moves. genOk pos m" "srcOk pos s" "tolower (cell pos s) = CHR ''p''"
    "dir = 8 \<or> dir = -8" "dx = 1 \<or> dx = -1"
  shows "\<forall>m\<in>set (pawnCapture pos s pc dir moves dx). genOk pos m"
proof -
  have ne: "s \<noteq> s + dir + dx" using assms(4,5) by linarith
  show ?thesis
    unfolding pawnCapture_def Let_def
    using assms(1) addMove_ok[OF assms(1,2) _ ne, of NUL]
      addMove_ok[OF assms(1,2) _ ne, of "CHR ''q''"] assms(3) by auto
qed

lemma pawnMoves_ok:
  assumes old: "\<forall>m\<in>set moves. genOk pos m" and src: "srcOk pos s"
    and p: "tolower (cell pos s) = CHR ''p''"
  shows "\<forall>m\<in>set (pawnMoves pos s pc moves). genOk pos m"
proof -
  define dir :: int where "dir = (if isWhitePiece pc then -8 else 8)"
  have dir: "dir = 8 \<or> dir = -8" by (simp add: dir_def)
  then have ne1: "s \<noteq> s + dir" and ne2: "s \<noteq> s + 2 * dir" by linarith+
  define single where "single = (if rankOf (s + dir) = 0 \<or> rankOf (s + dir) = 7
                              then addMove moves pos s (s + dir) (CHR ''q'')
                              else addMove moves pos s (s + dir) NUL)"
  define moves1 where "moves1 =
            (if isOnBoard (s + dir) \<and> cell pos (s + dir) = NUL then
               (if ((rankOf s = 6 \<and> isWhitePiece pc) \<or> (rankOf s = 1 \<and> isBlackPiece pc)) \<and>
                      isOnBoard (s + 2 * dir) \<and> cell pos (s + 2 * dir) = NUL
                   then addMove single pos s (s + 2 * dir) NUL
                   else single)
             else moves)"
  have single: "isOnBoard (s + dir) \<Longrightarrow> \<forall>m\<in>set single. genOk pos m"
    unfolding single_def using addMove_ok[OF old src _ ne1, of NUL]
      addMove_ok[OF old src _ ne1, of "CHR ''q''"] p by auto
  have m1: "\<forall>m\<in>set moves1. genOk pos m"
    unfolding moves1_def using old single addMove_ok[OF _ src _ ne2, of single NUL] by simp
  have "pawnMoves pos s pc moves = foldl (pawnCapture pos s pc dir) moves1 [-1, 1]"
    by (simp add: pawnMoves_def Let_def dir_def moves1_def single_def)
  moreover have "\<forall>m\<in>set (foldl (pawnCapture pos s pc dir) moves1 [-1, 1]). genOk pos m"
    by (rule foldl_inv[where P = "\<lambda>ms. \<forall>m\<in>set ms. genOk pos m", OF m1])
       (rule pawnCapture_ok[OF _ src p dir], auto)
  ultimately show ?thesis by simp
qed

lemma stepMove_ok:
  assumes old: "\<forall>m\<in>set ms. genOk pos m" and src: "srcOk pos s" and d: "d \<noteq> 0"
  shows "\<forall>m\<in>set (let t = s + d in
              if \<not> isOnBoard t \<or> bad t then ms
              else if cell pos t = NUL \<or> isWhitePiece pc \<noteq> isWhitePiece (cell pos t)
                   then addMove ms pos s t NUL
                   else ms). genOk pos m"
proof -
  have ne: "s \<noteq> s + d" using d by simp
  show ?thesis
    unfolding Let_def using old addMove_ok[OF old src _ ne, of NUL] by auto
qed

lemma knightMoves_ok:
  assumes old: "\<forall>m\<in>set moves. genOk pos m" and src: "srcOk pos s"
  shows "\<forall>m\<in>set (knightMoves pos s pc moves). genOk pos m"
  unfolding knightMoves_def
proof (rule foldl_inv[where P = "\<lambda>ms. \<forall>m\<in>set ms. genOk pos m", OF old])
  fix ms d assume d: "d \<in> set knightOffsets" and ms: "\<forall>m\<in>set ms. genOk pos m"
  from d have "d \<noteq> 0" by (auto simp: knightOffsets_def)
  from stepMove_ok[OF ms src this, of "\<lambda>t. \<bar>fileOf s - fileOf t\<bar> > 2" pc]
  show "\<forall>m\<in>set (let t = s + d in
              if \<not> isOnBoard t \<or> \<bar>fileOf s - fileOf t\<bar> > 2 then ms
              else if cell pos t = NUL \<or> isWhitePiece pc \<noteq> isWhitePiece (cell pos t)
                   then addMove ms pos s t NUL
                   else ms). genOk pos m" .
qed

lemma kingMoves_ok:
  assumes old: "\<forall>m\<in>set moves. genOk pos m" and src: "srcOk pos s"
  shows "\<forall>m\<in>set (kingMoves pos s pc moves). genOk pos m"
  unfolding kingMoves_def
proof (rule foldl_inv[where P = "\<lambda>ms. \<forall>m\<in>set ms. genOk pos m", OF old])
  fix ms d assume d: "d \<in> set kingOffsets" and ms: "\<forall>m\<in>set ms. genOk pos m"
  from d have "d \<noteq> 0" by (auto simp: kingOffsets_def)
  from stepMove_ok[OF ms src this, of "\<lambda>t. \<bar>fileOf s - fileOf t\<bar> > 1" pc]
  show "\<forall>m\<in>set (let t = s + d in
              if \<not> isOnBoard t \<or> \<bar>fileOf s - fileOf t\<bar> > 1 then ms
              else if cell pos t = NUL \<or> isWhitePiece pc \<noteq> isWhitePiece (cell pos t)
                   then addMove ms pos s t NUL
                   else ms). genOk pos m" .
qed

lemma bishopFold_ok:
  assumes old: "\<forall>m\<in>set moves. genOk pos m" and src: "srcOk pos s"
  shows "\<forall>m\<in>set (foldl (\<lambda>ms d. bishopSlide pos s pc d s ms) moves ds). genOk pos m"
  by (rule foldl_inv[where P = "\<lambda>ms. \<forall>m\<in>set ms. genOk pos m", OF old])
     (rule bishopSlide_ok[OF _ src], simp, linarith)

lemma rookFold_ok:
  assumes old: "\<forall>m\<in>set moves. genOk pos m" and src: "srcOk pos s"
  shows "\<forall>m\<in>set (foldl (\<lambda>ms d. rookSlide pos s pc d s ms) moves ds). genOk pos m"
  by (rule foldl_inv[where P = "\<lambda>ms. \<forall>m\<in>set ms. genOk pos m", OF old])
     (rule rookSlide_ok[OF _ src], simp, linarith)

lemma pieceMoves_ok:
  assumes old: "\<forall>m\<in>set moves. genOk pos m" and s: "isOnBoard s"
  shows "\<forall>m\<in>set (pieceMoves pos moves s). genOk pos m"
proof (cases "cell pos s = NUL \<or> (side pos = WHITE \<and> \<not> isWhitePiece (cell pos s)) \<or>
                (side pos = BLACK \<and> \<not> isBlackPiece (cell pos s))")
  case True
  then show ?thesis using old by (auto simp: pieceMoves_def Let_def)
next
  case False
  then have src: "srcOk pos s" using s by (cases "side pos") (auto simp: srcOk_def)
  note b = bishopFold_ok[OF _ src] and r = rookFold_ok[OF _ src] and k = kingMoves_ok[OF _ src]
  show ?thesis
  proof (cases "tolower (cell pos s) = CHR ''p''")
    case True
    then show ?thesis using False pawnMoves_ok[OF old src True]
      by (auto simp: pieceMoves_def Let_def)
  next
    case np: False
    show ?thesis
    proof (cases "tolower (cell pos s) = CHR ''n''")
      case True
      then show ?thesis using False np knightMoves_ok[OF old src]
        by (auto simp: pieceMoves_def Let_def)
    next
      case nn: False
      define m1 where "m1 = (if tolower (cell pos s) = CHR ''b'' \<or> tolower (cell pos s) = CHR ''q''
                      then foldl (\<lambda>ms d. bishopSlide pos s (cell pos s) d s ms) moves bishopOffsets
                      else moves)"
      define m2 where "m2 = (if tolower (cell pos s) = CHR ''r'' \<or> tolower (cell pos s) = CHR ''q''
                      then foldl (\<lambda>ms d. rookSlide pos s (cell pos s) d s ms) m1 rookOffsets
                      else m1)"
      have m1: "\<forall>m\<in>set m1. genOk pos m" unfolding m1_def using old b[OF old] by simp
      have m2: "\<forall>m\<in>set m2. genOk pos m" unfolding m2_def using m1 r[OF m1] by simp
      have "pieceMoves pos moves s =
              (if tolower (cell pos s) = CHR ''k'' then kingMoves pos s (cell pos s) m2 else m2)"
        using False np nn by (auto simp: pieceMoves_def Let_def m1_def m2_def)
      then show ?thesis using m2 k[OF m2] by simp
    qed
  qed
qed

lemma generateMoves_ok: "\<forall>m\<in>set (generateMoves pos). genOk pos m"
  unfolding generateMoves_def
  by (rule foldl_inv[where P = "\<lambda>ms. \<forall>m\<in>set ms. genOk pos m"])
     (simp, rule pieceMoves_ok, simp_all add: isOnBoard_def)

lemma of_char_inj_nat: "(of_char c :: nat) = of_char c' \<Longrightarrow> c = c'"
  by simp

lemma tolower_eq_lower:
  assumes "tolower c = c'" and "islower c'"
  shows "c = c' \<or> (isupper c \<and> (of_char c :: nat) + 32 = of_char c')"
proof (cases "isupper c")
  case False
  then show ?thesis using assms(1) by (simp add: tolower_def)
next
  case True
  then have "char_of ((of_char c :: nat) + 32) = c'" using assms(1) by (simp add: tolower_def)
  then have "(of_char (char_of ((of_char c :: nat) + 32) :: char) :: nat) = of_char c'" by simp
  moreover have "(of_char c :: nat) + 32 < 256" using True by (simp add: isupper_def)
  ultimately have "(of_char c :: nat) + 32 = of_char c'" by simp
  then show ?thesis using True by simp
qed

lemma tolower_p:
  assumes "tolower c = CHR ''p''"
  shows "c = CHR ''p'' \<or> c = CHR ''P''"
proof -
  from tolower_eq_lower[OF assms] have "c = CHR ''p'' \<or> (of_char c :: nat) + 32 = 112"
    by (auto simp: islower_def)
  moreover have "(of_char c :: nat) + 32 = 112 \<Longrightarrow> c = CHR ''P''"
  proof -
    assume "(of_char c :: nat) + 32 = 112"
    then have "(of_char c :: nat) = of_char (CHR ''P'')" by simp
    then show "c = CHR ''P''" by (rule of_char_inj_nat)
  qed
  ultimately show ?thesis by blast
qed

lemma tolower_kK: "tolower (CHR ''k'') = CHR ''k''" "tolower (CHR ''K'') = CHR ''k''"
  by code_simp+

lemma tolower_k:
  assumes "tolower c \<noteq> CHR ''k''"
  shows "c \<noteq> CHR ''k'' \<and> c \<noteq> CHR ''K''"
  using assms tolower_kK by auto

lemma case_q: "toupper (CHR ''q'') = CHR ''Q''" "tolower (CHR ''q'') = CHR ''q''"
  "isWhitePiece (CHR ''Q'')" "\<not> isWhitePiece (CHR ''q'')"
  "isWhitePiece (CHR ''P'')" "\<not> isWhitePiece (CHR ''p'')"
  "isBlackPiece (CHR ''p'')" "\<not> isBlackPiece (CHR ''P'')"
  by code_simp+

lemma undo_make:
  assumes ok: "genOk pos m" and len: "length (board pos) = 64"
  shows "undoMove (fst (makeMove pos m)) (snd (makeMove pos m)) = pos"
proof -
  let ?f = "nat (m_from m)" and ?t = "nat (m_to m)"
  from ok have f: "?f < 64" and t: "?t < 64" and ne: "?f \<noteq> ?t"
    and cap: "captured m = board pos ! ?t"
    by (auto simp: genOk_def isOnBoard_def cell_def)
  have side: "flipSide (flipSide (side pos)) = side pos" by (cases "side pos") simp_all
  have restore: "(board pos)[?t := x, ?f := NUL, ?f := board pos ! ?f, ?t := board pos ! ?t] = board pos" for x
    using ne by (simp add: list_update_swap[of ?t ?f])
  show ?thesis
  proof (cases "promo m = NUL")
    case True
    then show ?thesis
      using f t ne cap len side restore
      by (simp add: makeMove_def undoMove_def Let_def setCell_def cell_def)
  next
    case False
    with ok have q: "promo m = CHR ''q''" and p: "tolower (cell pos (m_from m)) = CHR ''p''"
      by (auto simp: genOk_def)
    from tolower_p[OF p] have pc: "board pos ! ?f = CHR ''p'' \<or> board pos ! ?f = CHR ''P''"
      by (simp add: cell_def)
    then show ?thesis
    proof
      assume b: "board pos ! ?f = CHR ''p''"
      show ?thesis
        using f t ne cap len side restore[of "CHR ''q''"] False q b
        by (simp add: makeMove_def undoMove_def Let_def setCell_def cell_def case_q)
    next
      assume w: "board pos ! ?f = CHR ''P''"
      show ?thesis
        using f t ne cap len side restore[of "CHR ''Q''"] False q w
        by (simp add: makeMove_def undoMove_def Let_def setCell_def cell_def case_q)
    qed
  qed
qed

lemma flipSide_twice: "flipSide (flipSide s) = s"
  by (cases s) simp_all

lemma legalStep_eq:
  assumes ok: "genOk pos mv" and len: "length (board pos) = 64"
  shows "legalStep (pos, legal) mv =
           (pos, if \<not> isInCheck (simMove pos mv) (side pos) then legal @ [mv] else legal)"
proof -
  let ?f = "nat (m_from mv)" and ?t = "nat (m_to mv)"
  from ok have f: "?f < 64" and t: "?t < 64" and ne: "?f \<noteq> ?t"
    and cap: "captured mv = board pos ! ?t"
    by (auto simp: genOk_def isOnBoard_def cell_def)
  have restore: "(board pos)[?t := x, ?f := NUL, ?f := board pos ! ?f, ?t := board pos ! ?t] = board pos" for x
    using ne by (simp add: list_update_swap[of ?t ?f])
  show ?thesis
    using f t ne cap len restore
    by (simp add: legalStep_def Let_def simMove_def setCell_def cell_def flipSide_twice)
qed

lemma foldl_legalStep:
  assumes "\<forall>m\<in>set ms. genOk pos m" and "length (board pos) = 64"
  shows "foldl legalStep (pos, legal) ms =
           (pos, legal @ filter (\<lambda>mv. \<not> isInCheck (simMove pos mv) (side pos)) ms)"
  using assms
proof (induction ms arbitrary: legal)
  case Nil
  then show ?case by simp
next
  case (Cons mv ms)
  then have ok: "genOk pos mv" and rest: "\<forall>m\<in>set ms. genOk pos m" by simp_all
  show ?case
    by (simp add: legalStep_eq[OF ok Cons.prems(2)] Cons.IH[OF rest Cons.prems(2)])
qed

lemma generateLegalMoves_eq:
  assumes "length (board pos) = 64"
  shows "generateLegalMoves pos legal =
           (pos, legal @ filter (\<lambda>mv. \<not> isInCheck (simMove pos mv) (side pos)) (generateMoves pos))"
  unfolding generateLegalMoves_def
  by (rule foldl_legalStep[OF generateMoves_ok assms])

lemma sameFor_empty: "sameFor bySide p1 p2 \<Longrightarrow> isOnBoard sq \<Longrightarrow>
    (cell p1 sq = NUL) = (cell p2 sq = NUL)"
  by (simp add: sameFor_def)

lemma sameFor_attacker: "sameFor bySide p1 p2 \<Longrightarrow> isOnBoard sq \<Longrightarrow>
    (isSidePiece bySide (cell p1 sq) \<and> Q (cell p1 sq)) =
    (isSidePiece bySide (cell p2 sq) \<and> Q (cell p2 sq))"
  unfolding sameFor_def by metis

lemma bishopRay_cong:
  "sameFor bySide p1 p2 \<Longrightarrow> bishopRay p1 bySide d sq = bishopRay p2 bySide d sq"
proof (induction p1 bySide d sq rule: bishopRay.induct)
  case (1 pos bySide d sq)
  show ?case
  proof (cases "isOnBoard sq \<and> \<bar>fileOf (sq - d) - fileOf sq\<bar> = 1")
    case False
    then show ?thesis by (subst bishopRay.simps[of pos _ d sq], subst bishopRay.simps[of p2 _ d sq]) auto
  next
    case True
    then have on: "isOnBoard sq" by simp
    note e = sameFor_empty[OF "1.prems" on]
    show ?thesis
    proof (cases "cell pos sq = NUL")
      case empty: True
      then show ?thesis using True e "1.IH"[OF True empty "1.prems"]
        by (subst bishopRay.simps[of pos _ d sq], subst bishopRay.simps[of p2 _ d sq]) auto
    next
      case occ: False
      then show ?thesis
        using True e sameFor_attacker[OF "1.prems" on,
            of "\<lambda>c. tolower c = CHR ''b'' \<or> tolower c = CHR ''q''"]
        by (subst bishopRay.simps[of pos _ d sq], subst bishopRay.simps[of p2 _ d sq]) auto
    qed
  qed
qed

lemma rookRay_cong:
  "sameFor bySide p1 p2 \<Longrightarrow> rookRay p1 bySide d sq = rookRay p2 bySide d sq"
proof (induction p1 bySide d sq rule: rookRay.induct)
  case (1 pos bySide d sq)
  show ?case
  proof (cases "d \<noteq> 0 \<and> isOnBoard sq \<and> \<not> ((d = -1 \<or> d = 1) \<and> rankOf (sq - d) \<noteq> rankOf sq)")
    case False
    then show ?thesis by (subst rookRay.simps[of pos _ d sq], subst rookRay.simps[of p2 _ d sq]) auto
  next
    case True
    then have on: "isOnBoard sq" by simp
    note e = sameFor_empty[OF "1.prems" on]
    show ?thesis
    proof (cases "cell pos sq = NUL")
      case empty: True
      then show ?thesis using True e "1.IH"[OF True empty "1.prems"]
        by (subst rookRay.simps[of pos _ d sq], subst rookRay.simps[of p2 _ d sq]) auto
    next
      case occ: False
      then show ?thesis
        using True e sameFor_attacker[OF "1.prems" on,
            of "\<lambda>c. tolower c = CHR ''r'' \<or> tolower c = CHR ''q''"]
        by (subst rookRay.simps[of pos _ d sq], subst rookRay.simps[of p2 _ d sq]) auto
    qed
  qed
qed

lemma list_ex_cong_on:
  "(\<And>x. x \<in> set xs \<Longrightarrow> P x = Q x) \<Longrightarrow> list_ex P xs = list_ex Q xs"
  by (simp add: list_ex_iff)

lemma pawnAttack_cong:
  assumes "sameFor bySide p1 p2"
  shows "pawnAttack p1 target bySide = pawnAttack p2 target bySide"
  unfolding pawnAttack_def Let_def
  by (rule list_ex_cong_on)
     (use sameFor_empty[OF assms] sameFor_attacker[OF assms, of _ "\<lambda>c. tolower c = CHR ''p''"] in blast)

lemma knightAttack_cong:
  assumes "sameFor bySide p1 p2"
  shows "knightAttack p1 target bySide = knightAttack p2 target bySide"
  unfolding knightAttack_def Let_def
  by (rule list_ex_cong_on)
     (use sameFor_empty[OF assms] sameFor_attacker[OF assms, of _ "\<lambda>c. tolower c = CHR ''n''"] in auto)

lemma kingAttack_cong:
  assumes "sameFor bySide p1 p2"
  shows "kingAttack p1 target bySide = kingAttack p2 target bySide"
  unfolding kingAttack_def Let_def
  by (rule list_ex_cong_on)
     (use sameFor_empty[OF assms] sameFor_attacker[OF assms, of _ "\<lambda>c. tolower c = CHR ''k''"] in blast)

lemma isAttacked_cong:
  assumes "sameFor bySide p1 p2"
  shows "isAttacked p1 target bySide = isAttacked p2 target bySide"
  unfolding isAttacked_def
  by (simp only: pawnAttack_cong[OF assms] knightAttack_cong[OF assms] kingAttack_cong[OF assms]
        bishopRay_cong[OF assms] rookRay_cong[OF assms])

lemma kingSquareFrom_cong:
  "(\<forall>sq. isOnBoard sq \<longrightarrow>
      (cell p1 sq \<noteq> NUL \<and> (if sd = WHITE then cell p1 sq = CHR ''K'' else cell p1 sq = CHR ''k'')) =
      (cell p2 sq \<noteq> NUL \<and> (if sd = WHITE then cell p2 sq = CHR ''K'' else cell p2 sq = CHR ''k'')))
   \<Longrightarrow> 0 \<le> i \<Longrightarrow> kingSquareFrom p1 sd i = kingSquareFrom p2 sd i"
proof (induction p1 sd i rule: kingSquareFrom.induct)
  case (1 pos sideToFind i)
  show ?case
  proof (cases "i < 64")
    case False
    then show ?thesis
      by (subst kingSquareFrom.simps[of pos _ i], subst kingSquareFrom.simps[of p2 _ i]) simp
  next
    case True
    with "1.prems" have on: "isOnBoard i" by (simp add: isOnBoard_def)
    with "1.prems"(1) have same:
      "(cell pos i \<noteq> NUL \<and> (if sideToFind = WHITE then cell pos i = CHR ''K'' else cell pos i = CHR ''k'')) =
       (cell p2 i \<noteq> NUL \<and> (if sideToFind = WHITE then cell p2 i = CHR ''K'' else cell p2 i = CHR ''k''))"
      by blast
    show ?thesis
    proof (cases "cell pos i \<noteq> NUL \<and> (if sideToFind = WHITE then cell pos i = CHR ''K'' else cell pos i = CHR ''k'')")
      case k: True
      with same have k2: "cell p2 i \<noteq> NUL \<and> (if sideToFind = WHITE then cell p2 i = CHR ''K'' else cell p2 i = CHR ''k'')"
        by simp
      show ?thesis using True k k2
        by (subst kingSquareFrom.simps[of pos _ i], subst kingSquareFrom.simps[of p2 _ i]) auto
    next
      case nk: False
      with same have nk2: "\<not> (cell p2 i \<noteq> NUL \<and> (if sideToFind = WHITE then cell p2 i = CHR ''K'' else cell p2 i = CHR ''k''))"
        by simp
      have "kingSquareFrom pos sideToFind (i + 1) = kingSquareFrom p2 sideToFind (i + 1)"
        using "1.IH"[OF True nk "1.prems"(1)] "1.prems"(2) by simp
      then show ?thesis using True nk nk2
        by (subst kingSquareFrom.simps[of pos _ i], subst kingSquareFrom.simps[of p2 _ i]) auto
    qed
  qed
qed

lemma cell_moved:
  assumes "length (board pos) = 64" "isOnBoard f" "isOnBoard t" "isOnBoard sq"
  shows "cell ((setCell (setCell pos t x) f NUL)\<lparr>side := s'\<rparr>) sq =
           (if sq = f then NUL else if sq = t then x else cell pos sq)"
  using assms by (auto simp: cell_def setCell_def isOnBoard_def nth_list_update)

lemma makeMove_plain:
  "promo m = NUL \<Longrightarrow> fst (makeMove pos m) = simMove pos m"
  by (simp add: makeMove_def simMove_def Let_def setCell_def)

lemma makeMove_promo:
  assumes ok: "genOk pos m" and pr: "promo m \<noteq> NUL"
  shows "(side pos = WHITE \<and> cell pos (m_from m) = CHR ''P'' \<and>
          fst (makeMove pos m) =
            (setCell (setCell pos (m_to m) (CHR ''Q'')) (m_from m) NUL)\<lparr>side := flipSide (side pos)\<rparr>) \<or>
         (side pos = BLACK \<and> cell pos (m_from m) = CHR ''p'' \<and>
          fst (makeMove pos m) =
            (setCell (setCell pos (m_to m) (CHR ''q'')) (m_from m) NUL)\<lparr>side := flipSide (side pos)\<rparr>)"
proof -
  from ok pr have q: "promo m = CHR ''q''" and p: "tolower (cell pos (m_from m)) = CHR ''p''"
    by (auto simp: genOk_def)
  from tolower_p[OF p] have pc: "cell pos (m_from m) = CHR ''p'' \<or> cell pos (m_from m) = CHR ''P''" .
  show ?thesis
  proof (cases "side pos")
    case WHITE
    with ok have "isWhitePiece (cell pos (m_from m))" by (simp add: genOk_def)
    with pc have P: "cell pos (m_from m) = CHR ''P''" using case_q by auto
    show ?thesis using WHITE P q pr
      by (simp add: makeMove_def Let_def case_q setCell_def)
  next
    case BLACK
    with ok have "isBlackPiece (cell pos (m_from m))" by (simp add: genOk_def)
    with pc have P: "cell pos (m_from m) = CHR ''p''" using case_q by auto
    show ?thesis using BLACK P q pr
      by (simp add: makeMove_def Let_def case_q setCell_def)
  qed
qed

lemma other_side_QP:
  "\<not> isSidePiece BLACK (CHR ''Q'')" "\<not> isSidePiece BLACK (CHR ''P'')"
  "\<not> isSidePiece WHITE (CHR ''q'')" "\<not> isSidePiece WHITE (CHR ''p'')"
  "CHR ''Q'' \<noteq> NUL" "CHR ''P'' \<noteq> NUL" "CHR ''q'' \<noteq> NUL" "CHR ''p'' \<noteq> NUL"
  by code_simp+

lemma isInCheck_cong:
  assumes "sameFor (flipSide sd) p1 p2"
    and "\<forall>sq. isOnBoard sq \<longrightarrow>
      (cell p1 sq \<noteq> NUL \<and> (if sd = WHITE then cell p1 sq = CHR ''K'' else cell p1 sq = CHR ''k'')) =
      (cell p2 sq \<noteq> NUL \<and> (if sd = WHITE then cell p2 sq = CHR ''K'' else cell p2 sq = CHR ''k''))"
  shows "isInCheck p1 sd = isInCheck p2 sd"
  unfolding isInCheck_def Let_def kingSquare_def
  by (simp add: kingSquareFrom_cong[OF assms(2)] isAttacked_cong[OF assms(1)])

lemma make_check_eq:
  assumes ok: "genOk pos m" and len: "length (board pos) = 64"
  shows "isInCheck (fst (makeMove pos m)) (side pos) = isInCheck (simMove pos m) (side pos)"
proof (cases "promo m = NUL")
  case True
  then show ?thesis by (simp add: makeMove_plain)
next
  case False
  from ok have f: "isOnBoard (m_from m)" and t: "isOnBoard (m_to m)" by (simp_all add: genOk_def)
  note c = cell_moved[OF len f t]
  have sim: "simMove pos m =
      (setCell (setCell pos (m_to m) (cell pos (m_from m))) (m_from m) NUL)\<lparr>side := flipSide (side pos)\<rparr>"
    by (simp add: simMove_def)
  from makeMove_promo[OF ok False] show ?thesis
  proof (elim disjE conjE)
    assume s: "side pos = WHITE" and p: "cell pos (m_from m) = CHR ''P''"
      and mk: "fst (makeMove pos m) =
        (setCell (setCell pos (m_to m) (CHR ''Q'')) (m_from m) NUL)\<lparr>side := flipSide (side pos)\<rparr>"
    show ?thesis unfolding mk sim p s
      by (rule isInCheck_cong) (auto simp: sameFor_def c other_side_QP)
  next
    assume s: "side pos = BLACK" and p: "cell pos (m_from m) = CHR ''p''"
      and mk: "fst (makeMove pos m) =
        (setCell (setCell pos (m_to m) (CHR ''q'')) (m_from m) NUL)\<lparr>side := flipSide (side pos)\<rparr>"
    show ?thesis unfolding mk sim p s
      by (rule isInCheck_cong) (auto simp: sameFor_def c other_side_QP)
  qed
qed

lemma legalStep_subset: "set (snd (legalStep st mv)) \<subseteq> set (snd st) \<union> {mv}"
  by (cases st) (auto simp: legalStep_def Let_def)

lemma foldl_legalStep_subset: "set (snd (foldl legalStep st ms)) \<subseteq> set (snd st) \<union> set ms"
proof (induction ms arbitrary: st)
  case Nil
  then show ?case by simp
next
  case (Cons mv ms)
  from Cons.IH[of "legalStep st mv"] legalStep_subset[of st mv] show ?case by auto
qed

lemma generateLegalMoves_subset:
  "set (snd (generateLegalMoves pos [])) \<subseteq> set (generateMoves pos)"
  using foldl_legalStep_subset[of "(pos, [])" "generateMoves pos"]
  by (simp add: generateLegalMoves_def)

lemma generated_ok:
  "m \<in> set (generateMoves pos) \<or> m \<in> set (snd (generateLegalMoves pos [])) \<Longrightarrow> genOk pos m"
  using generateLegalMoves_subset generateMoves_ok by blast

section \<open>Properties of the search and of the game wrapper\<close>

lemma makeMove_length: "length (board (fst (makeMove pos m))) = length (board pos)"
  by (simp add: makeMove_def Let_def setCell_def)

lemma mvvLvaBefore_eq: "mvvLvaBefore pos = (\<lambda>m1 m2. mvvLva pos m1 > mvvLva pos m2)"
  by (intro ext) (simp add: mvvLvaBefore_def Let_def)

lemma mset_sortMoves: "sortContract srt \<Longrightarrow> mset (sortMoves srt pos ms) = mset ms"
  by (simp add: sortContract_def sortMoves_def mvvLvaBefore_eq)

lemma sorted_sortMoves:
  "sortContract srt \<Longrightarrow>
   sorted_wrt (\<lambda>m1 m2. mvvLva pos m1 \<ge> mvvLva pos m2) (sortMoves srt pos ms)"
  by (simp add: sortContract_def sortMoves_def mvvLvaBefore_eq)

lemma set_sortMoves: "sortContract srt \<Longrightarrow> set (sortMoves srt pos ms) = set ms"
  by (metis mset_sortMoves set_mset_mset)

lemma sortMoves_Nil: "sortContract srt \<Longrightarrow> sortMoves srt pos ms = [] \<longleftrightarrow> ms = []"
  by (metis mset_sortMoves mset_zero_iff)

lemma sortMoves_single: "sortContract srt \<Longrightarrow> sortMoves srt pos [m] = [m]"
  by (metis mset_sortMoves mset_single_iff_right mset.simps(1,2) add_mset_eq_single)

lemma hd_sortMoves:
  assumes c: "sortContract srt" and ne: "ms \<noteq> []"
  shows "hd (sortMoves srt pos ms) \<in> set ms \<and>
         (\<forall>m\<in>set ms. mvvLva pos m \<le> mvvLva pos (hd (sortMoves srt pos ms)))"
proof -
  from ne sortMoves_Nil[OF c] obtain x xs where l: "sortMoves srt pos ms = x # xs"
    by (cases "sortMoves srt pos ms") auto
  from sorted_sortMoves[OF c, of pos ms] have "\<forall>m\<in>set xs. mvvLva pos m \<le> mvvLva pos x"
    by (simp add: l)
  then have "\<forall>m\<in>set (x # xs). mvvLva pos m \<le> mvvLva pos x" by simp
  then show ?thesis using set_sortMoves[OF c, of pos ms] by (auto simp: l)
qed

lemma mset_insertBy: "mset (insertBy before m xs) = add_mset m (mset xs)"
  by (induction xs) simp_all

lemma set_insertBy: "set (insertBy before m xs) = insert m (set xs)"
  by (metis mset_insertBy set_mset_add_mset_insert set_mset_mset)

lemma sorted_insertBy:
  "sorted_wrt (\<lambda>m1 m2. (h m1 :: int) \<ge> h m2) xs \<Longrightarrow>
   sorted_wrt (\<lambda>m1 m2. h m1 \<ge> h m2) (insertBy (\<lambda>m1 m2. h m1 > h m2) m xs)"
  by (induction xs) (auto simp: set_insertBy)

lemma insertionSort_contract: "sortContract insertionSort"
proof -
  have "mset (foldr (insertBy before) xs []) = mset xs" for before xs
    by (induction xs) (simp_all add: mset_insertBy)
  moreover have "sorted_wrt (\<lambda>m1 m2. (h m1 :: int) \<ge> h m2)
                   (foldr (insertBy (\<lambda>m1 m2. h m1 > h m2)) xs [])" for h xs
    by (induction xs) (simp_all add: sorted_insertBy)
  ultimately show ?thesis by (simp add: sortContract_def insertionSort_def)
qed

lemma legal_moves_ok:
  "m \<in> set (snd (generateLegalMoves pos [])) \<Longrightarrow> genOk pos m"
  using generated_ok by blast

lemma generateLegalMoves_fst:
  "length (board pos) = 64 \<Longrightarrow> fst (generateLegalMoves pos []) = pos"
  by (simp add: generateLegalMoves_eq)

lemma ab_hit:
  "ttProbe tt (ttKeyOf pos depth) depth = Some c \<Longrightarrow>
   alphaBetaSearch srt (Suc fuel) tt pos depth alpha beta = Some (pos, tt, c)"
  by (simp add: alphaBetaSearch.simps Let_def)

lemma ab_leaf:
  "ttProbe tt (ttKeyOf pos 0) 0 = None \<Longrightarrow>
   alphaBetaSearch srt (Suc fuel) tt pos 0 alpha beta = Some (pos, tt, evaluate pos)"
  by (simp add: alphaBetaSearch.simps Let_def)

lemma ab_miss:
  assumes "ttProbe tt (ttKeyOf pos depth) depth = None" "depth \<noteq> 0" "length (board pos) = 64"
  shows "alphaBetaSearch srt (Suc fuel) tt pos depth alpha beta =
     (if snd (generateLegalMoves pos []) = [] then
        Some (pos, tt(ttKeyOf pos depth \<mapsto>
                \<lparr>tt_depth = depth, tt_score = (if isInCheck pos (side pos) then -100000 + depth else 0)\<rparr>),
              if isInCheck pos (side pos) then -100000 + depth else 0)
      else searchMoves srt fuel tt pos (ttKeyOf pos depth) depth alpha beta (-1000000000)
             (sortMoves srt pos (snd (generateLegalMoves pos []))))"
proof -
  have g: "generateLegalMoves pos [] = (pos, snd (generateLegalMoves pos []))"
    using generateLegalMoves_fst[OF assms(3)] by (metis prod.collapse)
  show ?thesis
    by (subst alphaBetaSearch.simps, subst g) (simp add: assms(1,2) Let_def)
qed

lemma searchMoves_Cons:
  "searchMoves srt fuel tt pos key depth alpha beta best (m # ms) =
     (case alphaBetaSearch srt fuel tt (fst (makeMove pos m)) (depth - 1) (- beta) (- alpha) of
        None \<Rightarrow> None
      | Some r \<Rightarrow>
          (if - snd (snd r) \<ge> beta
           then Some (undoMove (fst r) (snd (makeMove pos m)),
                      (fst (snd r))(key \<mapsto> \<lparr>tt_depth = depth, tt_score = beta\<rparr>), beta)
           else searchMoves srt fuel (fst (snd r)) (undoMove (fst r) (snd (makeMove pos m))) key depth
                  (if - snd (snd r) > alpha then - snd (snd r) else alpha) beta
                  (if - snd (snd r) > best then - snd (snd r) else best) ms))"
  by (simp add: searchMoves.simps(2) Let_def split_beta split: option.splits)

lemma searchMoves_stores:
  "searchMoves srt fuel tt pos key depth alpha beta best ms = Some (pos', tt', v) \<Longrightarrow>
   tt' key = Some \<lparr>tt_depth = depth, tt_score = v\<rparr>"
proof (induction ms arbitrary: tt pos alpha best)
  case Nil
  then show ?case by (auto simp: searchMoves.simps(1))
next
  case (Cons m ms)
  from Cons.prems obtain r where
    ab: "alphaBetaSearch srt fuel tt (fst (makeMove pos m)) (depth - 1) (- beta) (- alpha) = Some r"
    by (auto simp: searchMoves_Cons split: option.splits)
  show ?case
  proof (cases "- snd (snd r) \<ge> beta")
    case True
    with Cons.prems ab show ?thesis by (auto simp: searchMoves_Cons)
  next
    case False
    with Cons.prems ab show ?thesis by (auto simp: searchMoves_Cons dest: Cons.IH)
  qed
qed

lemma searchMoves_restores:
  assumes IH: "\<And>tt pos d a b pos' tt' v. length (board pos) = 64 \<Longrightarrow>
                 alphaBetaSearch srt fuel tt pos d a b = Some (pos', tt', v) \<Longrightarrow> pos' = pos"
  shows "length (board pos) = 64 \<Longrightarrow> \<forall>m\<in>set ms. genOk pos m \<Longrightarrow>
         searchMoves srt fuel tt pos key depth alpha beta best ms = Some (pos', tt', v) \<Longrightarrow> pos' = pos"
proof (induction ms arbitrary: tt alpha best)
  case Nil
  then show ?case by (auto simp: searchMoves.simps(1))
next
  case (Cons m ms)
  let ?p1 = "fst (makeMove pos m)" and ?u = "snd (makeMove pos m)"
  have len1: "length (board ?p1) = 64" using Cons.prems(1) by (simp add: makeMove_length)
  from Cons.prems(2) have ok: "genOk pos m" and rest: "\<forall>m\<in>set ms. genOk pos m" by simp_all
  have undo: "undoMove ?p1 ?u = pos" by (rule undo_make[OF ok Cons.prems(1)])
  from Cons.prems(3) obtain r where
    ab: "alphaBetaSearch srt fuel tt ?p1 (depth - 1) (- beta) (- alpha) = Some r"
    by (auto simp: searchMoves_Cons split: option.splits)
  then have "alphaBetaSearch srt fuel tt ?p1 (depth - 1) (- beta) (- alpha) = Some (fst r, fst (snd r), snd (snd r))"
    by simp
  from IH[OF len1 this] have p2: "fst r = ?p1" .
  show ?case
  proof (cases "- snd (snd r) \<ge> beta")
    case True
    with Cons.prems(3) ab p2 undo show ?thesis by (simp add: searchMoves_Cons)
  next
    case False
    with Cons.prems(3) ab p2 undo have
      "searchMoves srt fuel (fst (snd r)) pos key depth (if - snd (snd r) > alpha then - snd (snd r) else alpha) beta
         (if - snd (snd r) > best then - snd (snd r) else best) ms = Some (pos', tt', v)"
      by (simp add: searchMoves_Cons)
    from Cons.IH[OF Cons.prems(1) rest this] show ?thesis .
  qed
qed

lemma ab_restores:
  assumes c: "sortContract srt"
  shows "length (board pos) = 64 \<Longrightarrow>
         alphaBetaSearch srt fuel tt pos depth alpha beta = Some (pos', tt', v) \<Longrightarrow> pos' = pos"
proof (induction fuel arbitrary: tt pos depth alpha beta pos' tt' v)
  case 0
  then show ?case by (simp add: alphaBetaSearch.simps)
next
  case (Suc fuel)
  show ?case
  proof (cases "ttProbe tt (ttKeyOf pos depth) depth")
    case (Some c)
    from Suc.prems(2) ab_hit[OF Some, where fuel = fuel and alpha = alpha and beta = beta and srt = srt] show ?thesis by simp
  next
    case None
    show ?thesis
    proof (cases "depth = 0")
      case True
      with Suc.prems(2) ab_leaf[where tt = tt and pos = pos and fuel = fuel and alpha = alpha and beta = beta and srt = srt] None show ?thesis by simp
    next
      case False
      note miss = ab_miss[OF None False Suc.prems(1), where fuel = fuel and alpha = alpha and beta = beta and srt = srt]
      show ?thesis
      proof (cases "snd (generateLegalMoves pos []) = []")
        case True
        with Suc.prems(2) miss show ?thesis by simp
      next
        case nonempty: False
        have ok: "\<forall>m\<in>set (sortMoves srt pos (snd (generateLegalMoves pos []))). genOk pos m"
          using legal_moves_ok by (simp add: set_sortMoves[OF c])
        from Suc.prems(2) miss nonempty have
          "searchMoves srt fuel tt pos (ttKeyOf pos depth) depth alpha beta (-1000000000)
             (sortMoves srt pos (snd (generateLegalMoves pos []))) = Some (pos', tt', v)" by simp
        from searchMoves_restores[OF Suc.IH Suc.prems(1) ok this] show ?thesis .
      qed
    qed
  qed
qed

lemma searchMoves_total:
  assumes "\<And>tt pos a b. alphaBetaSearch srt fuel tt pos (depth - 1) a b \<noteq> None"
  shows "searchMoves srt fuel tt pos key depth alpha beta best ms \<noteq> None"
proof (induction ms arbitrary: tt pos alpha best)
  case Nil
  show ?case by (simp add: searchMoves.simps(1))
next
  case (Cons m ms)
  from assms obtain r where
    "alphaBetaSearch srt fuel tt (fst (makeMove pos m)) (depth - 1) (- beta) (- alpha) = Some r"
    by blast
  then show ?case using Cons.IH by (simp add: searchMoves_Cons)
qed

lemma ab_total:
  "0 \<le> depth \<Longrightarrow> nat depth < fuel \<Longrightarrow> alphaBetaSearch srt fuel tt pos depth alpha beta \<noteq> None"
proof (induction fuel arbitrary: tt pos depth alpha beta)
  case 0
  then show ?case by simp
next
  case (Suc fuel)
  show ?case
  proof (cases "depth = 0")
    case True
    then show ?thesis
      by (simp add: alphaBetaSearch.simps(2) Let_def split: option.splits)
  next
    case False
    with Suc.prems have "0 \<le> depth - 1" "nat (depth - 1) < fuel" by linarith+
    then have "\<And>tt pos a b. alphaBetaSearch srt fuel tt pos (depth - 1) a b \<noteq> None"
      by (rule Suc.IH)
    from searchMoves_total[OF this] show ?thesis
      by (simp add: alphaBetaSearch.simps(2) Let_def split_beta split: option.splits)
  qed
qed

lemma no_moves_score:
  assumes "length (board pos) = 64" "depth \<noteq> 0"
    "ttProbe tt (ttKeyOf pos depth) depth = None" "snd (generateLegalMoves pos []) = []"
  shows "alphaBetaSearch srt (Suc fuel) tt pos depth alpha beta =
           Some (pos,
                 tt(ttKeyOf pos depth \<mapsto>
                      \<lparr>tt_depth = depth,
                       tt_score = (if isInCheck pos (side pos) then -100000 + depth else 0)\<rparr>),
                 if isInCheck pos (side pos) then -100000 + depth else 0)"
  using ab_miss[OF assms(3,2,1), where fuel = fuel and alpha = alpha and beta = beta and srt = srt] assms(4) by simp

lemma rootMoves_Cons:
  "rootMoves srt fuel tt pos depth p draws k best bs (m # ms) =
     (if p > 0 \<and> draws k < p then Some (pos, tt, m)
      else case alphaBetaSearch srt fuel tt (fst (makeMove pos m)) (depth - 1) (-1000000000) 1000000000 of
             None \<Rightarrow> None
           | Some r \<Rightarrow>
               (if - snd (snd r) > bs
                then rootMoves srt fuel (fst (snd r)) (undoMove (fst r) (snd (makeMove pos m))) depth p draws
                       (if p > 0 then k + 1 else k) m (- snd (snd r)) ms
                else rootMoves srt fuel (fst (snd r)) (undoMove (fst r) (snd (makeMove pos m))) depth p draws
                       (if p > 0 then k + 1 else k) best bs ms))"
  by (simp add: rootMoves.simps(2) Let_def split_beta split: option.splits)

lemma rootMoves_member:
  "rootMoves srt fuel tt pos depth p draws k best bs ms = Some (pos', tt', m) \<Longrightarrow>
   m = best \<or> m \<in> set ms"
proof (induction ms arbitrary: tt pos k best bs)
  case Nil
  then show ?case by (simp add: rootMoves.simps(1))
next
  case (Cons a ms)
  show ?case
  proof (cases "p > 0 \<and> draws k < p")
    case True
    with Cons.prems show ?thesis by (simp add: rootMoves_Cons)
  next
    case False
    with Cons.prems obtain r where
      ab: "alphaBetaSearch srt fuel tt (fst (makeMove pos a)) (depth - 1) (-1000000000) 1000000000 = Some r"
      by (auto simp: rootMoves_Cons split: option.splits)
    show ?thesis
    proof (cases "- snd (snd r) > bs")
      case better: True
      with Cons.prems False ab have "m = a \<or> m \<in> set ms"
        by (auto simp: rootMoves_Cons dest: Cons.IH)
      then show ?thesis by auto
    next
      case worse: False
      with Cons.prems False ab have "m = best \<or> m \<in> set ms"
        by (auto simp: rootMoves_Cons dest: Cons.IH)
      then show ?thesis by auto
    qed
  qed
qed

lemma rootMoves_total:
  assumes "\<And>tt pos. alphaBetaSearch srt fuel tt pos (depth - 1) (-1000000000) 1000000000 \<noteq> None"
  shows "rootMoves srt fuel tt pos depth p draws k best bs ms \<noteq> None"
proof (induction ms arbitrary: tt pos k best bs)
  case Nil
  show ?case by (simp add: rootMoves.simps(1))
next
  case (Cons m ms)
  from assms obtain r where
    "alphaBetaSearch srt fuel tt (fst (makeMove pos m)) (depth - 1) (-1000000000) 1000000000 = Some r"
    by blast
  then show ?case using Cons.IH by (simp add: rootMoves_Cons)
qed

lemma searchBestMove_unfold:
  "searchBestMove srt fuel tt pos depth p draws =
     (case snd (generateLegalMoves pos []) of
        [] \<Rightarrow> Some (Inl OutOfBounds)
      | m0 # rest \<Rightarrow>
          map_option Inr
            (rootMoves srt fuel tt (fst (generateLegalMoves pos [])) depth p draws 0 m0 (-1000000000)
               (sortMoves srt (fst (generateLegalMoves pos [])) (snd (generateLegalMoves pos [])))))"
  by (simp add: searchBestMove_def Let_def split_beta split: list.splits)

lemma playerLoop_true:
  "fst (playerLoop g s f t ms) \<longleftrightarrow> (\<exists>m\<in>set ms. m_from m = f \<and> m_to m = t)"
  by (induction ms) (auto simp: Let_def split_beta)

lemma playerLoop_false:
  "\<not> fst (playerLoop g s f t ms) \<Longrightarrow> snd (playerLoop g s f t ms) = g"
  by (induction ms) (auto simp: Let_def split_beta split: if_splits)

lemma playerMove_unfold:
  assumes "length (board (g_pos g)) = 64" "length s = 4"
  shows "playerMove g s =
     playerLoop g s (algebraicToSquare (substr s 0 2)) (algebraicToSquare (substr s 2 2))
       (snd (generateLegalMoves (g_pos g) []))"
  using assms generateLegalMoves_fst[OF assms(1)]
  by (simp add: playerMove_def Let_def split_beta)

lemma foldl_cellValue:
  "foldl (\<lambda>sum pc. if pc \<noteq> NUL
                     then sum + (if isWhitePiece pc then pieceValue pc else - pieceValue pc)
                     else sum) a xs = a + sum_list (map cellValue xs)"
  by (induction xs arbitrary: a) (simp_all add: cellValue_def)

lemma evaluate_sum:
  "evaluate pos = (if side pos = WHITE then sum_list (map cellValue (board pos))
                   else - sum_list (map cellValue (board pos)))"
  by (simp add: evaluate_def Let_def foldl_cellValue)

lemma tolower_is_k:
  assumes "tolower c = CHR ''k''"
  shows "c = CHR ''k'' \<or> c = CHR ''K''"
proof -
  from tolower_eq_lower[OF assms] have "c = CHR ''k'' \<or> (of_char c :: nat) + 32 = 107"
    by (auto simp: islower_def)
  moreover have "(of_char c :: nat) + 32 = 107 \<Longrightarrow> c = CHR ''K''"
  proof -
    assume "(of_char c :: nat) + 32 = 107"
    then have "(of_char c :: nat) = of_char (CHR ''K'')" by simp
    then show "c = CHR ''K''" by (rule of_char_inj_nat)
  qed
  ultimately show ?thesis by blast
qed

lemma cellValue_kings: "cellValue (CHR ''K'') = 20000" "cellValue (CHR ''k'') = - 20000"
  by code_simp+

lemma cellValue_other:
  assumes "c \<noteq> CHR ''K''" "c \<noteq> CHR ''k''"
  shows "\<bar>cellValue c\<bar> \<le> 900"
proof -
  from assms tolower_is_k have "tolower c \<noteq> CHR ''k''" by blast
  then have "0 \<le> pieceValue c \<and> pieceValue c \<le> 900" by (simp add: pieceValue_def Let_def)
  then show ?thesis by (simp add: cellValue_def)
qed

lemma material_split:
  "\<bar>sum_list (map cellValue xs)
     - 20000 * (int (count_list xs (CHR ''K'')) - int (count_list xs (CHR ''k'')))\<bar>
   \<le> 900 * int (length xs)"
proof (induction xs)
  case Nil
  show ?case by simp
next
  case (Cons c xs)
  consider "c = CHR ''K''" | "c = CHR ''k''" | "c \<noteq> CHR ''K''" "c \<noteq> CHR ''k''" by blast
  then show ?case
  proof cases
    case 1
    with Cons.IH show ?thesis by (simp add: cellValue_kings)
  next
    case 2
    with Cons.IH show ?thesis by (simp add: cellValue_kings)
  next
    case 3
    from cellValue_other[OF 3] Cons.IH 3 show ?thesis by simp
  qed
qed

lemma material_bound:
  assumes "length (board pos) = 64"
    and "count_list (board pos) (CHR ''K'') = count_list (board pos) (CHR ''k'')"
  shows "\<bar>evaluate pos\<bar> \<le> 57600"
  using material_split[of "board pos"] assms by (simp add: evaluate_sum)

lemma mate_score_dominates_material:
  assumes "length (board pos) = 64"
    and "count_list (board pos) (CHR ''K'') = count_list (board pos) (CHR ''k'')"
    and "1 \<le> depth" "depth < 42400"
  shows "\<bar>evaluate pos\<bar> < \<bar>-100000 + depth\<bar>"
  using material_bound[OF assms(1,2)] assms(3,4) by linarith

lemma ping_moves:
  "generateLegalMoves pingPos [] = (pingPos, [\<lparr>m_from = 63, m_to = 62, captured = NUL, promo = NUL\<rparr>])"
  "generateLegalMoves pingPos1 [] = (pingPos1, [\<lparr>m_from = 7, m_to = 6, captured = NUL, promo = NUL\<rparr>])"
  "generateLegalMoves pingPos2 [] = (pingPos2, [\<lparr>m_from = 62, m_to = 63, captured = NUL, promo = NUL\<rparr>])"
  "generateLegalMoves pingPos3 [] = (pingPos3, [\<lparr>m_from = 6, m_to = 7, captured = NUL, promo = NUL\<rparr>])"
  by code_simp+

lemma ping_cycle:
  "fst (makeMove pingPos3 \<lparr>m_from = 6, m_to = 7, captured = NUL, promo = NUL\<rparr>) = pingPos"
  by code_simp

lemma ping_step:
  assumes c: "sortContract srt" and d: "depth \<noteq> 0"
    and g: "generateLegalMoves pos [] = (pos, [m])"
    and n: "\<And>a b. alphaBetaSearch srt fuel emptyTT (fst (makeMove pos m)) (depth - 1) a b = None"
  shows "alphaBetaSearch srt (Suc fuel) emptyTT pos depth alpha beta = None"
proof -
  have probe: "ttProbe emptyTT (ttKeyOf pos depth) depth = None"
    by (simp add: ttProbe_def emptyTT_def)
  show ?thesis
    by (simp add: alphaBetaSearch.simps(2) probe d g sortMoves_single[OF c] searchMoves_Cons n)
qed

lemma ping_never_returns:
  assumes c: "sortContract srt"
  shows "depth < 0 \<Longrightarrow> pos \<in> {pingPos, pingPos1, pingPos2, pingPos3} \<Longrightarrow>
         alphaBetaSearch srt fuel emptyTT pos depth alpha beta = None"
proof (induction fuel arbitrary: pos depth alpha beta)
  case 0
  show ?case by (simp add: alphaBetaSearch.simps(1))
next
  case (Suc fuel)
  from Suc.prems(1) have d: "depth \<noteq> 0" and d1: "depth - 1 < 0" by linarith+
  note ih = Suc.IH[OF d1]
  from Suc.prems(2) consider "pos = pingPos" | "pos = pingPos1" | "pos = pingPos2" | "pos = pingPos3"
    by blast
  then show ?case
  proof cases
    case 1
    show ?thesis unfolding 1
      by (rule ping_step[OF c d ping_moves(1)]) (simp add: ih pingPos1_def[symmetric])
  next
    case 2
    show ?thesis unfolding 2
      by (rule ping_step[OF c d ping_moves(2)]) (simp add: ih pingPos2_def[symmetric])
  next
    case 3
    show ?thesis unfolding 3
      by (rule ping_step[OF c d ping_moves(3)]) (simp add: ih pingPos3_def[symmetric])
  next
    case 4
    show ?thesis unfolding 4
      by (rule ping_step[OF c d ping_moves(4)]) (simp add: ih ping_cycle)
  qed
qed

section \<open>The claims\<close>

text \<open>
  C1. For every position (a board of 64 cells), every move returned by \<open>generateLegalMoves\<close>,
  applied with \<open>makeMove\<close>, gives a position in which the king of the side that moved is
  not attacked by the other side. This holds for promotions too, although the filter tests
  them with the pawn still on the destination square.
\<close>

theorem legal_moves_leave_king_safe:
  assumes "length (board pos) = 64" and "m \<in> set (snd (generateLegalMoves pos []))"
  shows "\<not> isInCheck (fst (makeMove pos m)) (side pos)"
proof -
  from assms have m: "m \<in> set (generateMoves pos)"
    and safe: "\<not> isInCheck (simMove pos m) (side pos)"
    by (simp_all add: generateLegalMoves_eq)
  from m generateMoves_ok have "genOk pos m" by blast
  from make_check_eq[OF this assms(1)] safe show ?thesis by simp
qed

text \<open>Witness for C1: the promotion b7-b8 in \<open>promoPos\<close>; the new piece is a queen.\<close>

theorem legal_moves_leave_king_safe_witness:
  "length (board promoPos) = 64 \<and>
   \<lparr>m_from = 9, m_to = 1, captured = NUL, promo = CHR ''q''\<rparr> \<in> set (snd (generateLegalMoves promoPos [])) \<and>
   cell (fst (makeMove promoPos \<lparr>m_from = 9, m_to = 1, captured = NUL, promo = CHR ''q''\<rparr>)) 1 = CHR ''Q'' \<and>
   \<not> isInCheck (fst (makeMove promoPos \<lparr>m_from = 9, m_to = 1, captured = NUL, promo = CHR ''q''\<rparr>)) (side promoPos)"
proof -
  have len: "length (board promoPos) = 64" by code_simp
  have mem: "\<lparr>m_from = 9, m_to = 1, captured = NUL, promo = CHR ''q''\<rparr> \<in> set (snd (generateLegalMoves promoPos []))"
    by code_simp
  have q: "cell (fst (makeMove promoPos \<lparr>m_from = 9, m_to = 1, captured = NUL, promo = CHR ''q''\<rparr>)) 1 = CHR ''Q''"
    by code_simp
  from legal_moves_leave_king_safe[OF len mem] len mem q show ?thesis by blast
qed

text \<open>
  C2. For every position and every move of the generator (pseudo-legal or legal, captures and
  promotions included), \<open>makeMove\<close> followed by \<open>undoMove\<close> on the undo record gives back
  the position: the 64 cells and the side to move.
\<close>

theorem make_undo_restores_position:
  assumes "length (board pos) = 64"
    and "m \<in> set (generateMoves pos) \<or> m \<in> set (snd (generateLegalMoves pos []))"
  shows "undoMove (fst (makeMove pos m)) (snd (makeMove pos m)) = pos"
  by (rule undo_make[OF generated_ok[OF assms(2)] assms(1)])

text \<open>Witness for C2: the capturing promotion bxa8 in \<open>promoPos\<close>.\<close>

theorem make_undo_restores_position_witness:
  "length (board promoPos) = 64 \<and>
   \<lparr>m_from = 9, m_to = 0, captured = CHR ''r'', promo = CHR ''q''\<rparr> \<in> set (generateMoves promoPos) \<and>
   cell (fst (makeMove promoPos \<lparr>m_from = 9, m_to = 0, captured = CHR ''r'', promo = CHR ''q''\<rparr>)) 0 = CHR ''Q'' \<and>
   undoMove (fst (makeMove promoPos \<lparr>m_from = 9, m_to = 0, captured = CHR ''r'', promo = CHR ''q''\<rparr>))
            (snd (makeMove promoPos \<lparr>m_from = 9, m_to = 0, captured = CHR ''r'', promo = CHR ''q''\<rparr>)) = promoPos"
proof -
  have len: "length (board promoPos) = 64" by code_simp
  have mem: "\<lparr>m_from = 9, m_to = 0, captured = CHR ''r'', promo = CHR ''q''\<rparr> \<in> set (generateMoves promoPos)"
    by code_simp
  have q: "cell (fst (makeMove promoPos \<lparr>m_from = 9, m_to = 0, captured = CHR ''r'', promo = CHR ''q''\<rparr>)) 0 = CHR ''Q''"
    by code_simp
  from make_undo_restores_position[OF len disjI1[OF mem]] len mem q show ?thesis by blast
qed

text \<open>
  C3 as stated fails. In \<open>cornerPos\<close> the search at depth 1 with the full window returns 0 on
  the empty table (Kxb2 levels the material). On the table \<open>cornerTT\<close>, left by an earlier
  search of the same position and depth with the window (-1000, -100), it returns -100: that
  search was cut off at its first move and stored the bound \<open>beta = -100\<close> under a key that
  does not record the window. The searches are run with \<open>insertionSort\<close>; the two quiet king
  moves both score -100, so the cutoff comes whichever of them the sort puts first.
\<close>

theorem cached_bound_changes_score:
  "scoreOf (alphaBetaSearch insertionSort 2 emptyTT cornerPos 1 (-1000000000) 1000000000) = Some 0 \<and>
   scoreOf (alphaBetaSearch insertionSort 2 cornerTT cornerPos 1 (-1000000000) 1000000000) = Some (-100)"
  by code_simp

text \<open>
  C3 as amended. A search that is repeated with the same position, depth and window on the
  table that the first run left returns the same score, and leaves position and table as they
  are. This holds for every sort that meets the contract of \<open>std::sort\<close>.
\<close>

theorem repeated_search_same_score:
  assumes srt: "sortContract srt" and len: "length (board pos) = 64"
    and first: "alphaBetaSearch srt fuel tt pos depth alpha beta = Some (pos', tt', v)"
  shows "alphaBetaSearch srt fuel tt' pos' depth alpha beta = Some (pos', tt', v)"
proof -
  from ab_restores[OF srt len first] have p: "pos' = pos" .
  from first obtain n where fuel: "fuel = Suc n"
    by (cases fuel) (simp_all add: alphaBetaSearch.simps(1))
  show ?thesis
  proof (cases "ttProbe tt (ttKeyOf pos depth) depth")
    case (Some c)
    from first ab_hit[OF Some, where fuel = n and alpha = alpha and beta = beta and srt = srt] show ?thesis by (simp add: fuel)
  next
    case None
    show ?thesis
    proof (cases "depth = 0")
      case True
      with first ab_leaf[where tt = tt and pos = pos and fuel = n and alpha = alpha and beta = beta and srt = srt] None show ?thesis by (simp add: fuel)
    next
      case False
      note miss = ab_miss[OF None False len, where fuel = n and alpha = alpha and beta = beta and srt = srt]
      have stored: "tt' (ttKeyOf pos depth) = Some \<lparr>tt_depth = depth, tt_score = v\<rparr>"
      proof (cases "snd (generateLegalMoves pos []) = []")
        case True
        with first miss show ?thesis by (auto simp: fuel)
      next
        case nonempty: False
        with first miss have
          "searchMoves srt n tt pos (ttKeyOf pos depth) depth alpha beta (-1000000000)
             (sortMoves srt pos (snd (generateLegalMoves pos []))) = Some (pos', tt', v)"
          by (simp add: fuel)
        then show ?thesis by (rule searchMoves_stores)
      qed
      then have "ttProbe tt' (ttKeyOf pos depth) depth = Some v" by (simp add: ttProbe_def)
      from ab_hit[OF this, where fuel = n and alpha = alpha and beta = beta and srt = srt] show ?thesis by (simp add: fuel p)
    qed
  qed
qed

text \<open>Witness for the amended C3: \<open>cornerPos\<close> at depth 1 with the window (-1000, -100).\<close>

theorem repeated_search_same_score_witness:
  "sortContract insertionSort \<and> length (board cornerPos) = 64 \<and>
   alphaBetaSearch insertionSort 2 emptyTT cornerPos 1 (-1000) (-100) = Some (cornerPos, cornerTT, -100) \<and>
   alphaBetaSearch insertionSort 2 cornerTT cornerPos 1 (-1000) (-100) = Some (cornerPos, cornerTT, -100)"
proof -
  have len: "length (board cornerPos) = 64" by code_simp
  have s: "scoreOf (alphaBetaSearch insertionSort 2 emptyTT cornerPos 1 (-1000) (-100)) = Some (-100)" by code_simp
  then obtain p t where r: "alphaBetaSearch insertionSort 2 emptyTT cornerPos 1 (-1000) (-100) = Some (p, t, -100)"
    by (auto simp: scoreOf_def)
  from ab_restores[OF insertionSort_contract len r] have p: "p = cornerPos" .
  from r have t: "t = cornerTT" by (simp add: cornerTT_def tableOf_def)
  from repeated_search_same_score[OF insertionSort_contract len r] r len insertionSort_contract
  show ?thesis by (simp add: p t)
qed

text \<open>
  C4. In \<open>tempoPos\<close> the legal move b6-b7 checkmates at once: the position after it, searched
  with the 3 plies that a search of depth 4 has left, scores -99997 for the mated side. The move
  h3-h4 leads to the same checkmate two plies later, and the position after it scores -99999.
  Negated at the root the slower mate is worth 99999 and the immediate one 99997, and
  \<open>searchBestMove\<close> with depth 4 returns h3-h4. The search is run with \<open>insertionSort\<close>; at
  the root h3-h4 has the largest score of the four moves, so that its place in the sorted list
  does not matter.
\<close>

theorem slower_mate_preferred:
  "\<lparr>m_from = 17, m_to = 9, captured = NUL, promo = NUL\<rparr> \<in> set (snd (generateLegalMoves tempoPos [])) \<and>
   snd (generateLegalMoves (fst (makeMove tempoPos \<lparr>m_from = 17, m_to = 9, captured = NUL, promo = NUL\<rparr>)) []) = [] \<and>
   isInCheck (fst (makeMove tempoPos \<lparr>m_from = 17, m_to = 9, captured = NUL, promo = NUL\<rparr>)) BLACK \<and>
   scoreOf (alphaBetaSearch insertionSort 4 emptyTT
              (fst (makeMove tempoPos \<lparr>m_from = 17, m_to = 9, captured = NUL, promo = NUL\<rparr>)) 3
              (-1000000000) 1000000000) = Some (-99997) \<and>
   scoreOf (alphaBetaSearch insertionSort 4 emptyTT
              (fst (makeMove tempoPos \<lparr>m_from = 47, m_to = 39, captured = NUL, promo = NUL\<rparr>)) 3
              (-1000000000) 1000000000) = Some (-99999) \<and>
   moveOf (searchBestMove insertionSort 4 emptyTT tempoPos 4 0 noDraws)
     = Some \<lparr>m_from = 47, m_to = 39, captured = NUL, promo = NUL\<rparr>"
  by code_simp




text \<open>
  C6. \<open>playerMove\<close> returns true exactly when the string has 4 characters and the squares
  parsed from it are the source and destination of a legal move; when it returns false the
  game, and with it the board and the side to move, is unchanged.
\<close>

theorem playerMove_accepts_legal_only:
  assumes "length (board (g_pos g)) = 64"
  shows "(fst (playerMove g s) \<longleftrightarrow>
            length s = 4 \<and>
            (\<exists>m\<in>set (snd (generateLegalMoves (g_pos g) [])).
               m_from m = algebraicToSquare (substr s 0 2) \<and>
               m_to m = algebraicToSquare (substr s 2 2))) \<and>
         (\<not> fst (playerMove g s) \<longrightarrow> snd (playerMove g s) = g)"
proof (cases "length s = 4")
  case False
  then show ?thesis by (simp add: playerMove_def)
next
  case True
  show ?thesis
    unfolding playerMove_unfold[OF assms True]
    using True playerLoop_true playerLoop_false by blast
qed

text \<open>Witness for C6: from the initial position e2e4 is accepted; e2e5 and the 2-character
  string e2 are rejected and change nothing.\<close>

theorem playerMove_accepts_legal_only_witness:
  "length (board (g_pos startGame)) = 64 \<and>
   fst (playerMove startGame ''e2e4'') \<and>
   \<not> fst (playerMove startGame ''e2e5'') \<and> snd (playerMove startGame ''e2e5'') = startGame \<and>
   \<not> fst (playerMove startGame ''e2'') \<and> snd (playerMove startGame ''e2'') = startGame"
proof -
  have len: "length (board (g_pos startGame)) = 64" by code_simp
  have a: "fst (playerMove startGame ''e2e4'')" by code_simp
  have b: "\<not> fst (playerMove startGame ''e2e5'')" by code_simp
  have c: "\<not> fst (playerMove startGame ''e2'')" by code_simp
  from playerMove_accepts_legal_only[OF len, of "''e2e5''"]
    playerMove_accepts_legal_only[OF len, of "''e2''"] len a b c
  show ?thesis by blast
qed

text \<open>
  C7. No move of \<open>generateMoves\<close> or \<open>generateLegalMoves\<close> has a king on its destination
  square, and its \<open>captured\<close> field is never a king; \<open>addMove\<close> returns the move list
  unchanged when the target square holds a king.
\<close>

theorem generated_moves_never_capture_king:
  "(m \<in> set (generateMoves pos) \<or> m \<in> set (snd (generateLegalMoves pos [])) \<longrightarrow>
      cell pos (m_to m) \<noteq> CHR ''k'' \<and> cell pos (m_to m) \<noteq> CHR ''K'' \<and>
      captured m \<noteq> CHR ''k'' \<and> captured m \<noteq> CHR ''K'') \<and>
   (cell pos t = CHR ''k'' \<or> cell pos t = CHR ''K'' \<longrightarrow> addMove moves pos s t pr = moves)"
proof (intro conjI impI)
  assume "cell pos t = CHR ''k'' \<or> cell pos t = CHR ''K''"
  then show "addMove moves pos s t pr = moves"
    using tolower_kK by (auto simp: addMove_def Let_def NUL_def)
next
  assume "m \<in> set (generateMoves pos) \<or> m \<in> set (snd (generateLegalMoves pos []))"
  then have ok: "genOk pos m" by (rule generated_ok)
  then have cap: "captured m = cell pos (m_to m)" and "tolower (captured m) \<noteq> CHR ''k''"
    unfolding genOk_def by blast+
  from tolower_k[OF this(2)] have k: "captured m \<noteq> CHR ''k'' \<and> captured m \<noteq> CHR ''K''" .
  from k cap show "cell pos (m_to m) \<noteq> CHR ''k''" "cell pos (m_to m) \<noteq> CHR ''K''"
    "captured m \<noteq> CHR ''k''" "captured m \<noteq> CHR ''K''" by simp_all
qed

text \<open>Witness for C7: in \<open>rookPos\<close> the rook moves up to h7, and the capture on h8 is
  dropped.\<close>

theorem generated_moves_never_capture_king_witness:
  "\<lparr>m_from = 63, m_to = 15, captured = NUL, promo = NUL\<rparr> \<in> set (generateMoves rookPos) \<and>
   cell rookPos 15 \<noteq> CHR ''k'' \<and> captured \<lparr>m_from = 63, m_to = 15, captured = NUL, promo = NUL\<rparr> \<noteq> CHR ''k'' \<and>
   cell rookPos 7 = CHR ''k'' \<and> addMove [] rookPos 63 7 NUL = [] \<and>
   \<lparr>m_from = 63, m_to = 7, captured = CHR ''k'', promo = NUL\<rparr> \<notin> set (generateMoves rookPos)"
proof -
  have mem: "\<lparr>m_from = 63, m_to = 15, captured = NUL, promo = NUL\<rparr> \<in> set (generateMoves rookPos)"
    by code_simp
  have k: "cell rookPos 7 = CHR ''k''" by code_simp
  have no: "\<lparr>m_from = 63, m_to = 7, captured = CHR ''k'', promo = NUL\<rparr> \<notin> set (generateMoves rookPos)"
    by code_simp
  from generated_moves_never_capture_king[of "\<lparr>m_from = 63, m_to = 15, captured = NUL, promo = NUL\<rparr>" rookPos 7 "[]" 63 NUL]
    mem k no show ?thesis by simp
qed

text \<open>
  C8 as stated fails: with a legal move available the call need not return a move. In
  \<open>pingPos\<close> White has the legal move Kg1, and \<open>searchBestMove\<close> with depth 0 calls
  \<open>alphaBetaSearch\<close> with depth -1, which never meets \<open>depth == 0\<close> and recurses along the
  forced moves without end: no recursion budget is enough. Every move list on the way has one
  element, so the order of the sort plays no part.
\<close>

theorem depth_zero_root_search_never_returns:
  "snd (generateLegalMoves pingPos []) = [\<lparr>m_from = 63, m_to = 62, captured = NUL, promo = NUL\<rparr>] \<and>
   (\<forall>fuel. searchBestMove insertionSort fuel emptyTT pingPos 0 0 noDraws = None)"
proof -
  have "alphaBetaSearch insertionSort fuel emptyTT pingPos1 (0 - 1) (-1000000000) 1000000000 = None"
    for fuel
    by (rule ping_never_returns[OF insertionSort_contract]) simp_all
  then show ?thesis
    by (simp add: searchBestMove_def ping_moves(1) sortMoves_single[OF insertionSort_contract]
          rootMoves_Cons pingPos1_def[symmetric])
qed

text \<open>
  C8 as amended. With at least one legal move and a depth of at least 1, \<open>searchBestMove\<close>
  reads its move list only within bounds and returns one of the legal moves (a recursion
  budget of \<open>depth\<close> is enough); for any depth, whatever it returns is one of the legal moves.
  Without a legal move its first access \<open>moves[0]\<close> is out of bounds. This holds for every
  sort that meets the contract of \<open>std::sort\<close>.
\<close>

theorem searchBestMove_in_bounds:
  assumes srt: "sortContract srt"
  shows
  "(snd (generateLegalMoves pos []) = [] \<longrightarrow>
      searchBestMove srt fuel tt pos depth p draws = Some (Inl OutOfBounds)) \<and>
   (snd (generateLegalMoves pos []) \<noteq> [] \<longrightarrow>
      (\<forall>r. searchBestMove srt fuel tt pos depth p draws = Some r \<longrightarrow>
         (\<exists>pos' tt' m. r = Inr (pos', tt', m) \<and> m \<in> set (snd (generateLegalMoves pos [])))) \<and>
      (1 \<le> depth \<and> nat depth \<le> fuel \<longrightarrow> searchBestMove srt fuel tt pos depth p draws \<noteq> None))"
proof (intro conjI impI allI)
  assume "snd (generateLegalMoves pos []) = []"
  then show "searchBestMove srt fuel tt pos depth p draws = Some (Inl OutOfBounds)"
    by (simp add: searchBestMove_unfold)
next
  fix r
  assume ne: "snd (generateLegalMoves pos []) \<noteq> []"
    and r: "searchBestMove srt fuel tt pos depth p draws = Some r"
  from ne obtain m0 rest where l: "snd (generateLegalMoves pos []) = m0 # rest"
    by (cases "snd (generateLegalMoves pos [])") auto
  from r obtain pos' tt' m where
    root: "rootMoves srt fuel tt (fst (generateLegalMoves pos [])) depth p draws 0 m0 (-1000000000)
             (sortMoves srt (fst (generateLegalMoves pos [])) (m0 # rest)) = Some (pos', tt', m)"
    and res: "r = Inr (pos', tt', m)"
    by (auto simp: searchBestMove_unfold l)
  from rootMoves_member[OF root] have "m \<in> set (m0 # rest)"
    by (auto simp: set_sortMoves[OF srt])
  with res l show "\<exists>pos' tt' m. r = Inr (pos', tt', m) \<and> m \<in> set (snd (generateLegalMoves pos []))"
    by auto
next
  assume ne: "snd (generateLegalMoves pos []) \<noteq> []" and d: "1 \<le> depth \<and> nat depth \<le> fuel"
  from ne obtain m0 rest where l: "snd (generateLegalMoves pos []) = m0 # rest"
    by (cases "snd (generateLegalMoves pos [])") auto
  from d have "0 \<le> depth - 1" "nat (depth - 1) < fuel" by linarith+
  then have "\<And>tt pos. alphaBetaSearch srt fuel tt pos (depth - 1) (-1000000000) 1000000000 \<noteq> None"
    by (rule ab_total)
  from rootMoves_total[OF this] show "searchBestMove srt fuel tt pos depth p draws \<noteq> None"
    by (simp add: searchBestMove_unfold l)
qed

text \<open>Witness for the amended C8: \<open>matePos\<close> has no legal move; \<open>cornerPos\<close> has three, and the
  search of depth 1 returns one of them.\<close>

theorem searchBestMove_in_bounds_witness:
  "sortContract insertionSort \<and>
   snd (generateLegalMoves matePos []) = [] \<and>
   searchBestMove insertionSort 1 emptyTT matePos 1 0 noDraws = Some (Inl OutOfBounds) \<and>
   snd (generateLegalMoves cornerPos []) \<noteq> [] \<and> (1::int) \<le> 1 \<and> nat 1 \<le> (1::nat) \<and>
   (\<exists>pos' tt' m. searchBestMove insertionSort 1 emptyTT cornerPos 1 0 noDraws = Some (Inr (pos', tt', m)) \<and>
      m \<in> set (snd (generateLegalMoves cornerPos [])))"
proof -
  have e: "snd (generateLegalMoves matePos []) = []" by code_simp
  have ne: "snd (generateLegalMoves cornerPos []) \<noteq> []" by code_simp
  note w1 = searchBestMove_in_bounds[OF insertionSort_contract, of matePos 1 emptyTT 1 0 noDraws]
  note w2 = searchBestMove_in_bounds[OF insertionSort_contract, of cornerPos 1 emptyTT 1 0 noDraws]
  from w1 e have a: "searchBestMove insertionSort 1 emptyTT matePos 1 0 noDraws = Some (Inl OutOfBounds)" by blast
  from w2 ne have "searchBestMove insertionSort 1 emptyTT cornerPos 1 0 noDraws \<noteq> None" by simp
  then obtain r where r: "searchBestMove insertionSort 1 emptyTT cornerPos 1 0 noDraws = Some r" by blast
  with w2 ne have "\<exists>pos' tt' m. r = Inr (pos', tt', m) \<and> m \<in> set (snd (generateLegalMoves cornerPos []))"
    by blast
  with r e a ne insertionSort_contract show ?thesis by auto
qed

text \<open>
  C9. With a blunder probability of at least 1 and draws from [0,1), \<open>searchBestMove\<close> returns
  the first move of the sorted legal moves, with the table unchanged; this holds for every
  recursion budget, also 0, with which no call of \<open>alphaBetaSearch\<close> returns. Whatever order
  \<open>std::sort\<close> gives to moves of equal value, that first move is a legal move of the largest
  MVV-LVA value. In general, when \<open>p > 0\<close> and the draw for a move is below \<open>p\<close>, the loop
  returns that move at once.
\<close>

theorem blunder_returns_without_search:
  assumes srt: "sortContract srt"
  shows
  "(1 \<le> p \<and> (\<forall>i. 0 \<le> draws i \<and> draws i < 1) \<and> length (board pos) = 64 \<and>
    snd (generateLegalMoves pos []) \<noteq> [] \<longrightarrow>
      searchBestMove srt fuel tt pos depth p draws =
        Some (Inr (pos, tt, hd (sortMoves srt pos (snd (generateLegalMoves pos []))))) \<and>
      hd (sortMoves srt pos (snd (generateLegalMoves pos []))) \<in> set (snd (generateLegalMoves pos [])) \<and>
      (\<forall>m'\<in>set (snd (generateLegalMoves pos [])).
         mvvLva pos m' \<le> mvvLva pos (hd (sortMoves srt pos (snd (generateLegalMoves pos [])))))) \<and>
   (0 < p \<and> draws k < p \<longrightarrow>
      rootMoves srt fuel tt pos depth p draws k best bestScore (m # ms) = Some (pos, tt, m))"
proof (intro conjI impI)
  assume a: "1 \<le> p \<and> (\<forall>i. 0 \<le> draws i \<and> draws i < 1) \<and> length (board pos) = 64 \<and>
    snd (generateLegalMoves pos []) \<noteq> []"
  then obtain m0 rest where l: "snd (generateLegalMoves pos []) = m0 # rest"
    by (cases "snd (generateLegalMoves pos [])") auto
  from a have f: "fst (generateLegalMoves pos []) = pos" by (simp add: generateLegalMoves_fst)
  from a have d: "0 < p \<and> draws 0 < p" by (metis less_le_trans zero_less_one)
  have "sortMoves srt pos (m0 # rest) \<noteq> []" by (simp add: sortMoves_Nil[OF srt])
  then obtain s ss where st: "sortMoves srt pos (m0 # rest) = s # ss"
    by (cases "sortMoves srt pos (m0 # rest)") auto
  show "searchBestMove srt fuel tt pos depth p draws =
        Some (Inr (pos, tt, hd (sortMoves srt pos (snd (generateLegalMoves pos [])))))"
    using d by (simp add: searchBestMove_unfold l f st rootMoves_Cons)
  from a hd_sortMoves[OF srt, of "snd (generateLegalMoves pos [])" pos]
  show "hd (sortMoves srt pos (snd (generateLegalMoves pos []))) \<in> set (snd (generateLegalMoves pos []))"
    and "\<forall>m'\<in>set (snd (generateLegalMoves pos [])).
         mvvLva pos m' \<le> mvvLva pos (hd (sortMoves srt pos (snd (generateLegalMoves pos []))))"
    by blast+
next
  assume "0 < p \<and> draws k < p"
  then show "rootMoves srt fuel tt pos depth p draws k best bestScore (m # ms) = Some (pos, tt, m)"
    by (simp add: rootMoves_Cons)
qed

text \<open>Witness for C9. In \<open>promoPos\<close> the generator lists the quiet promotion b7-b8 first
  and the capturing promotion bxa8 second; with probability 1 the search returns the
  capture, which is the only move of the largest value, 400. With probability 0.35 and a draw
  of 0.2 at the second move of the loop, that move is returned.\<close>

theorem blunder_returns_without_search_witness:
  "sortContract insertionSort \<and>
   (1::real) \<le> 1 \<and> (\<forall>i. 0 \<le> halfDraws i \<and> halfDraws i < 1) \<and> length (board promoPos) = 64 \<and>
   hd (snd (generateLegalMoves promoPos [])) = \<lparr>m_from = 9, m_to = 1, captured = NUL, promo = CHR ''q''\<rparr> \<and>
   searchBestMove insertionSort 0 emptyTT promoPos 2 1 halfDraws =
     Some (Inr (promoPos, emptyTT, \<lparr>m_from = 9, m_to = 0, captured = CHR ''r'', promo = CHR ''q''\<rparr>)) \<and>
   mvvLva promoPos \<lparr>m_from = 9, m_to = 0, captured = CHR ''r'', promo = CHR ''q''\<rparr> = 400 \<and>
   map (mvvLva promoPos) (snd (generateLegalMoves promoPos [])) = [0, 400, 0, 0, 0, 0, 0] \<and>
   (0::real) < 0.35 \<and> fifthDraws 1 < 0.35 \<and>
   rootMoves insertionSort 0 emptyTT cornerPos 2 0.35 fifthDraws 1
     \<lparr>m_from = 56, m_to = 48, captured = NUL, promo = NUL\<rparr> 100
     [\<lparr>m_from = 56, m_to = 57, captured = NUL, promo = NUL\<rparr>,
      \<lparr>m_from = 56, m_to = 49, captured = CHR ''p'', promo = NUL\<rparr>]
     = Some (cornerPos, emptyTT, \<lparr>m_from = 56, m_to = 57, captured = NUL, promo = NUL\<rparr>)"
proof -
  have len: "length (board promoPos) = 64" by code_simp
  have ne: "snd (generateLegalMoves promoPos []) \<noteq> []" by code_simp
  have h0: "hd (snd (generateLegalMoves promoPos [])) = \<lparr>m_from = 9, m_to = 1, captured = NUL, promo = CHR ''q''\<rparr>"
    by code_simp
  have hd: "hd (sortMoves insertionSort promoPos (snd (generateLegalMoves promoPos []))) =
              \<lparr>m_from = 9, m_to = 0, captured = CHR ''r'', promo = CHR ''q''\<rparr>" by code_simp
  have v: "mvvLva promoPos \<lparr>m_from = 9, m_to = 0, captured = CHR ''r'', promo = CHR ''q''\<rparr> = 400"
    by code_simp
  have vs: "map (mvvLva promoPos) (snd (generateLegalMoves promoPos [])) = [0, 400, 0, 0, 0, 0, 0]"
    by code_simp
  have dr: "\<forall>i. 0 \<le> halfDraws i \<and> halfDraws i < 1" by (simp add: halfDraws_def)
  have fd: "(0::real) < 0.35 \<and> fifthDraws 1 < 0.35" by (simp add: fifthDraws_def)
  note w1 = blunder_returns_without_search[OF insertionSort_contract, of 1 halfDraws promoPos 0 emptyTT 2]
  note w2 = blunder_returns_without_search[OF insertionSort_contract, of "0.35" fifthDraws cornerPos 0 emptyTT 2 1
      "\<lparr>m_from = 56, m_to = 48, captured = NUL, promo = NUL\<rparr>" 100
      "\<lparr>m_from = 56, m_to = 57, captured = NUL, promo = NUL\<rparr>"
      "[\<lparr>m_from = 56, m_to = 49, captured = CHR ''p'', promo = NUL\<rparr>]"]
  from w1 len ne dr hd have a: "searchBestMove insertionSort 0 emptyTT promoPos 2 1 halfDraws =
     Some (Inr (promoPos, emptyTT, \<lparr>m_from = 9, m_to = 0, captured = CHR ''r'', promo = CHR ''q''\<rparr>))"
    by simp
  from w2 fd have b: "rootMoves insertionSort 0 emptyTT cornerPos 2 0.35 fifthDraws 1
     \<lparr>m_from = 56, m_to = 48, captured = NUL, promo = NUL\<rparr> 100
     [\<lparr>m_from = 56, m_to = 57, captured = NUL, promo = NUL\<rparr>,
      \<lparr>m_from = 56, m_to = 49, captured = CHR ''p'', promo = NUL\<rparr>]
     = Some (cornerPos, emptyTT, \<lparr>m_from = 56, m_to = 57, captured = NUL, promo = NUL\<rparr>)"
    by blast
  from insertionSort_contract len dr h0 v vs fd a b show ?thesis by simp
qed

text \<open>
  C10. \<open>setLevel\<close> maps 1 to depth 2 and probability 0.35, 2 to depth 4 and probability 0,
  and every other integer to depth 6 and probability 0, as 3; every call returns the empty
  table. The constructor's default level is 2.
\<close>

theorem setLevel_mapping:
  "setLevel g 1 tt = (g\<lparr>levelDepth := 2, randomProbability := 0.35\<rparr>, emptyTT) \<and>
   setLevel g 2 tt = (g\<lparr>levelDepth := 4, randomProbability := 0\<rparr>, emptyTT) \<and>
   (lvl \<noteq> 1 \<and> lvl \<noteq> 2 \<longrightarrow>
      setLevel g lvl tt = (g\<lparr>levelDepth := 6, randomProbability := 0\<rparr>, emptyTT) \<and>
      setLevel g lvl tt = setLevel g 3 tt) \<and>
   snd (setLevel g lvl tt) = emptyTT \<and>
   newGameDefault tt = newGame 2 tt \<and>
   levelDepth (fst (newGameDefault tt)) = 4 \<and> randomProbability (fst (newGameDefault tt)) = 0 \<and>
   snd (newGameDefault tt) = emptyTT"
  by (simp add: setLevel_def newGameDefault_def newGame_def Let_def emptyTT_def)

text \<open>Witness for C10: the levels 0, -4 and 9.\<close>

theorem setLevel_mapping_witness:
  "(0::int) \<noteq> 1 \<and> (0::int) \<noteq> 2 \<and>
   setLevel startGame 0 cornerTT = (startGame\<lparr>levelDepth := 6, randomProbability := 0\<rparr>, emptyTT) \<and>
   (-4::int) \<noteq> 1 \<and> (-4::int) \<noteq> 2 \<and>
   setLevel startGame (-4) cornerTT = (startGame\<lparr>levelDepth := 6, randomProbability := 0\<rparr>, emptyTT) \<and>
   (9::int) \<noteq> 1 \<and> (9::int) \<noteq> 2 \<and>
   setLevel startGame 9 cornerTT = (startGame\<lparr>levelDepth := 6, randomProbability := 0\<rparr>, emptyTT)"
proof -
  note w0 = setLevel_mapping[of startGame cornerTT 0]
  note w1 = setLevel_mapping[of startGame cornerTT "-4"]
  note w2 = setLevel_mapping[of startGame cornerTT 9]
  have a: "setLevel startGame 0 cornerTT = (startGame\<lparr>levelDepth := 6, randomProbability := 0\<rparr>, emptyTT)"
    using w0 by simp
  have b: "setLevel startGame (-4) cornerTT = (startGame\<lparr>levelDepth := 6, randomProbability := 0\<rparr>, emptyTT)"
    using w1 by simp
  have c: "setLevel startGame 9 cornerTT = (startGame\<lparr>levelDepth := 6, randomProbability := 0\<rparr>, emptyTT)"
    using w2 by simp
  from a b c show ?thesis by simp
qed

end
